theory Spec2Isabelle
  imports Main "HOL-Library.Word" "HOL-Library.List_Lexorder" "HOL-Library.AList"
    "HOL-Library.Sublist"
begin

section \<open>Strings and request bodies of the runtime\<close>

text \<open>
  A JavaScript string is a sequence of UTF-16 code units: \<open>length\<close>, \<open>slice\<close> and
  \<open>trim\<close> all count code units, and a character outside the Basic Multilingual Plane is a
  surrogate pair, two units long.
\<close>

type_synonym jsstring = "16 word list"

definition lit :: "string \<Rightarrow> jsstring" where
  \<comment> \<open>an ASCII literal of the source, as code units\<close>
  "lit s = map (\<lambda>c. of_nat (of_char c)) s"

definition isWhite :: "16 word \<Rightarrow> bool" where
  \<comment> \<open>the WhiteSpace and LineTerminator code points that \<open>String.prototype.trim\<close> strips;
      all of them lie in the Basic Multilingual Plane\<close>
  "isWhite c =
     (c \<in> {0x0009, 0x000A, 0x000B, 0x000C, 0x000D, 0x0020, 0x00A0, 0x1680,
            0x2028, 0x2029, 0x202F, 0x205F, 0x3000, 0xFEFF}
      \<or> (0x2000 \<le> c \<and> c \<le> 0x200A))"

definition trim :: "jsstring \<Rightarrow> jsstring" where
  "trim s = rev (dropWhile isWhite (rev (dropWhile isWhite s)))"

definition slice_str :: "jsstring \<Rightarrow> nat \<Rightarrow> nat \<Rightarrow> jsstring" where
  \<comment> \<open>\<open>s.slice(b, e)\<close> for the non-negative constants the source passes (the name
      \<open>slice\<close> is taken by the word library)\<close>
  "slice_str s b e = take (e - b) (drop b s)"

text \<open>
  A value read from a parsed JSON body is a string or something else (undefined, null, a
  number, ...); the routes only ever ask \<open>typeof v === "string"\<close>. The body itself is what
  \<open>request.json().catch(() => ({}))\<close> yields: \<open>null\<close>, on which every property read raises
  a TypeError, or any other value, read through its properties (an unparsable body reads as
  the empty object).
\<close>

datatype jsvalue = JString jsstring | JOther

datatype body = JNull | JObject "string \<Rightarrow> jsvalue"

definition typeofString :: "jsvalue \<Rightarrow> jsstring option" where
  \<comment> \<open>\<open>typeof v === "string" ? v : null\<close>\<close>
  "typeofString v = (case v of JString s \<Rightarrow> Some s | JOther \<Rightarrow> None)"

definition falsy :: "jsstring option \<Rightarrow> bool" where
  \<comment> \<open>\<open>!v\<close> for a value that is a string or null\<close>
  "falsy v = (case v of None \<Rightarrow> True | Some s \<Rightarrow> s = [])"

section \<open>Data model\<close>

text \<open>
  Modelled from the spec: the types of \<open>@/lib/protocol\<close>, which is absent from the
  sources. They follow section 3 of the specification and the fields the client component
  reads (\<open>participant.uid\<close>, \<open>participant.name\<close>, \<open>conversation.id\<close>,
  \<open>conversation.participants\<close>, \<open>conversation.messages\<close>, \<open>conversation.updatedAt\<close>,
  \<open>message.id\<close>, \<open>message.from\<close>, \<open>message.text\<close>, \<open>message.kind\<close>,
  \<open>message.timestamp\<close>, and the payloads of the five kinds of event). Field names that
  clash with Isabelle names carry a suffix. The participants of a conversation are kept in
  the order they were entered, as the keys of a JavaScript object are.
\<close>

record participant =
  uid :: jsstring
  name :: jsstring

datatype message_kind = KindMessage | KindSystem

record message =
  id_msg :: jsstring
  conversationId :: jsstring
  from_msg :: "jsstring option"
  text_msg :: jsstring
  kind :: message_kind
  timestamp :: int

record conversation =
  id_conv :: jsstring
  participants :: "(jsstring \<times> participant) list"
  messages :: "message list"
  updatedAt :: int

datatype server_event =
    Hello jsstring
  | ConversationEvent conversation
  | MessageEvent jsstring message
  | UserEvent jsstring jsstring
  | SystemEvent jsstring

datatype chunk =
    Data server_event  \<comment> \<open>an event, sent as \<open>data: <JSON>\<close>\<close>
  | Ping               \<comment> \<open>the keep-alive comment \<open>: ping\<close>\<close>

text \<open>
  Modelled from the spec: the error kinds of section 7. What the absent store raises is an
  \<open>Error\<close> of one of these kinds; the routes only look at \<open>instanceof Error\<close> and at the
  message.
\<close>

datatype error_kind = InvalidArgument | NotFound | Internal

datatype thrown =
    Error error_kind  \<comment> \<open>an \<open>Error\<close> raised by the store, of one of the kinds of section 7\<close>
  | TypeError         \<comment> \<open>raised by the runtime\<close>
  | NonError          \<comment> \<open>a thrown value that is not an \<open>Error\<close> instance\<close>

fun instanceofError :: "thrown \<Rightarrow> bool" where
  "instanceofError (Error k) = True"
| "instanceofError TypeError = True"
| "instanceofError NonError = False"

datatype payload = UserJson participant | ConversationJson conversation | MessageJson message

datatype error_text =
    Literal string      \<comment> \<open>a message written in the route\<close>
  | MessageOf thrown    \<comment> \<open>\<open>error.message\<close> of a caught error\<close>

datatype response =
    Json payload              \<comment> \<open>\<open>NextResponse.json(...)\<close>, status 200\<close>
  | ErrorJson error_text nat  \<comment> \<open>\<open>NextResponse.json({ error }, { status })\<close>\<close>
  | EventStream nat           \<comment> \<open>the event stream with this handle\<close>

text \<open>
  One live feed: the queue of its \<open>ReadableStream\<close> controller, the \<open>uid\<close> its closures
  hold, whether the controller is closed, whether the keep-alive interval is running, and
  whether \<open>cleanupRef\<close> still holds the cleanup function.
\<close>

record stream =
  owner :: jsstring
  queue :: "chunk list"
  closed :: bool
  keepAlive :: bool
  cleanupRef :: bool

text \<open>
  Modelled from the spec: the single in-memory state of the absent \<open>@/lib/server-state\<close>
  (the identity registry, the conversations in insertion order, the subscriber handles of
  every identity), together with the streams the events route has opened so far; a
  subscriber is the handle of its stream.
\<close>

record state =
  users :: "jsstring \<rightharpoonup> participant"
  conversations :: "(jsstring \<times> conversation) list"
  subscribers :: "jsstring \<Rightarrow> nat list"
  streams :: "stream list"

definition init :: state where
  "init = \<lparr>users = Map.empty, conversations = [], subscribers = (\<lambda>u. []), streams = []\<rparr>"

section \<open>Subscriptions and delivery\<close>

definition enqueue :: "chunk \<Rightarrow> nat \<Rightarrow> state \<Rightarrow> state option" where
  \<comment> \<open>\<open>controller.enqueue(chunk)\<close>: raises (None) on a closed controller\<close>
  "enqueue c k st =
     (if k < length (streams st) \<and> \<not> closed (streams st ! k)
      then Some (st\<lparr>streams := (streams st)
                     [k := (streams st ! k)\<lparr>queue := queue (streams st ! k) @ [c]\<rparr>]\<rparr>)
      else None)"

definition push :: "server_event \<Rightarrow> nat \<Rightarrow> state \<Rightarrow> state" where
  \<comment> \<open>Modelled from the spec: one isolated delivery attempt of \<open>publish\<close> (section 4.3), the
      subscriber's \<open>push\<close> of the events route with its exception swallowed\<close>
  "push ev k st = (case enqueue (Data ev) k st of None \<Rightarrow> st | Some st' \<Rightarrow> st')"

definition subscribeToUser :: "jsstring \<Rightarrow> nat \<Rightarrow> state \<Rightarrow> state" where
  \<comment> \<open>Modelled from the spec: \<open>subscribeToUser\<close> of the absent \<open>@/lib/server-state\<close>
      (section 4.3, subscribe): adds the observer to the identity's set\<close>
  "subscribeToUser u k st =
     st\<lparr>subscribers := (subscribers st)
          (u := (if k \<in> set (subscribers st u) then subscribers st u
                 else subscribers st u @ [k]))\<rparr>"

definition unsubscribeFromUser :: "jsstring \<Rightarrow> nat \<Rightarrow> state \<Rightarrow> state" where
  \<comment> \<open>Modelled from the spec: \<open>unsubscribeFromUser\<close> of the absent \<open>@/lib/server-state\<close>
      (section 4.3, unsubscribe): removes exactly that observer, a no-op when it is gone\<close>
  "unsubscribeFromUser u k st =
     st\<lparr>subscribers := (subscribers st)(u := removeAll k (subscribers st u))\<rparr>"

definition publish :: "jsstring \<Rightarrow> server_event \<Rightarrow> state \<Rightarrow> state" where
  \<comment> \<open>Modelled from the spec: \<open>publish\<close> (section 4.3): delivers the event to every observer
      registered for the identity; nothing happens when there is none\<close>
  "publish u ev st = fold (push ev) (subscribers st u) st"

section \<open>Identity registry\<close>

definition getUser :: "state \<Rightarrow> jsstring \<Rightarrow> participant option" where
  \<comment> \<open>Modelled from the spec: \<open>getUser\<close> of the absent \<open>@/lib/server-state\<close> (section 4.1,
      get): lookup only\<close>
  "getUser st u = users st u"

definition renameIn :: "jsstring \<Rightarrow> jsstring \<Rightarrow> conversation \<Rightarrow> conversation" where
  \<comment> \<open>Modelled from the spec: a conversation's view of a renamed identity (see
      \<open>setName\<close>): the new name in the record of that participant\<close>
  "renameIn u n c =
     c\<lparr>participants :=
         map (\<lambda>(v, p). (v, if v = u then p\<lparr>name := n\<rparr> else p)) (participants c)\<rparr>"

definition setName :: "jsstring \<Rightarrow> jsstring \<Rightarrow> state \<Rightarrow> state" where
  \<comment> \<open>Modelled from the spec: the assignment to \<open>displayName\<close> of a stored identity record.
      The record is the one the conversations hold (section 4.1: the new name is surfaced
      the next time a conversation snapshot is fetched), so the copies kept in the
      conversations of this model change with it.\<close>
  "setName u n st =
     st\<lparr>users := (case users st u of None \<Rightarrow> users st
                   | Some p \<Rightarrow> (users st)(u \<mapsto> p\<lparr>name := n\<rparr>)),
        conversations := map (\<lambda>(cid, c). (cid, renameIn u n c)) (conversations st)\<rparr>"

definition saveUser :: "state \<Rightarrow> jsstring \<Rightarrow> jsstring \<Rightarrow> participant \<times> state" where
  \<comment> \<open>Modelled from the spec: \<open>saveUser\<close> of the absent \<open>@/lib/server-state\<close> (section 4.1,
      upsert): creates the identity if absent, else updates the display name only if a
      non-empty name is supplied; always returns the stored record\<close>
  "saveUser st u n =
     (case users st u of
        None \<Rightarrow> (\<lparr>uid = u, name = n\<rparr>, st\<lparr>users := (users st)(u \<mapsto> \<lparr>uid = u, name = n\<rparr>)\<rparr>)
      | Some p \<Rightarrow> (if n \<noteq> [] then (p\<lparr>name := n\<rparr>, setName u n st) else (p, st)))"

definition renameParticipant ::
  "state \<Rightarrow> jsstring \<Rightarrow> jsstring \<Rightarrow> thrown + participant \<times> state" where
  \<comment> \<open>Modelled from the spec: \<open>renameParticipant\<close> of the absent \<open>@/lib/server-state\<close>
      (section 4.1, rename): fails with NotFound when the identity is absent; otherwise
      sets the name and sends a "user" event to the identity's own subscribers\<close>
  "renameParticipant st u n =
     (case users st u of
        None \<Rightarrow> Inl (Error NotFound)
      | Some p \<Rightarrow> Inr (p\<lparr>name := n\<rparr>, publish u (UserEvent u n) (setName u n st)))"

section \<open>Conversation store\<close>

definition separator :: jsstring where
  \<comment> \<open>Modelled from the spec: the separator of the canonical conversation id (section 4.2);
      the specification does not fix it and no theorem below depends on its value\<close>
  "separator = lit '':''"

definition conversationKey :: "jsstring \<Rightarrow> jsstring \<Rightarrow> jsstring" where
  \<comment> \<open>Modelled from the spec: the canonical conversation id of an unordered pair (section
      4.2): the two ids sorted lexicographically and joined with a separator\<close>
  "conversationKey a b = (if a \<le> b then a @ separator @ b else b @ separator @ a)"

definition ensureConversation ::
  "int \<Rightarrow> state \<Rightarrow> jsstring \<Rightarrow> jsstring \<Rightarrow> thrown + conversation \<times> state" where
  \<comment> \<open>Modelled from the spec: \<open>ensureConversation\<close> of the absent \<open>@/lib/server-state\<close>
      (section 4.2, ensure); \<open>now\<close> is the clock reading of the call\<close>
  "ensureConversation now st a b =
     (if a = b then Inl (Error InvalidArgument)
      else case users st a of
        None \<Rightarrow> Inl (Error InvalidArgument)
      | Some pa \<Rightarrow>
         (case users st b of
            None \<Rightarrow> Inl (Error InvalidArgument)
          | Some pb \<Rightarrow>
             (case map_of (conversations st) (conversationKey a b) of
                Some c \<Rightarrow> Inr (c, st)
              | None \<Rightarrow>
                 (let c = \<lparr>id_conv = conversationKey a b,
                           participants = [(a, pa), (b, pb)],
                           messages = [], updatedAt = now\<rparr>;
                      st' = st\<lparr>conversations :=
                                conversations st @ [(conversationKey a b, c)]\<rparr>
                  in Inr (c, publish b (ConversationEvent c)
                               (publish a (ConversationEvent c) st'))))))"

definition appendMessage ::
  "int \<Rightarrow> jsstring \<Rightarrow> state \<Rightarrow> jsstring \<Rightarrow> participant \<Rightarrow> jsstring
     \<Rightarrow> thrown + message \<times> state" where
  \<comment> \<open>Modelled from the spec: \<open>appendMessage\<close> of the absent \<open>@/lib/server-state\<close> (section
      4.2, append); \<open>now\<close> is the clock reading of the call and \<open>mid\<close> the fresh message id.
      The timestamp is the clock reading, raised to the conversation's \<open>updatedAt\<close> when the
      clock reads less (a timestamp \<open>\<ge>\<close> the current \<open>updatedAt\<close>).\<close>
  "appendMessage now mid st cid author txt =
     (case map_of (conversations st) cid of
        None \<Rightarrow> Inl (Error NotFound)
      | Some c \<Rightarrow>
         (if trim txt = [] \<or> uid author \<notin> fst ` set (participants c)
          then Inl (Error InvalidArgument)
          else
            (let m = \<lparr>id_msg = mid, conversationId = cid, from_msg = Some (uid author),
                      text_msg = txt, kind = KindMessage,
                      timestamp = max now (updatedAt c)\<rparr>;
                 c' = c\<lparr>messages := messages c @ [m], updatedAt := max now (updatedAt c)\<rparr>;
                 st' = st\<lparr>conversations := AList.update cid c' (conversations st)\<rparr>
             in Inr (m, fold (\<lambda>u. publish u (MessageEvent cid m))
                          (map fst (participants c)) st'))))"

definition listConversationsForUser :: "state \<Rightarrow> jsstring \<Rightarrow> conversation list" where
  \<comment> \<open>Modelled from the spec: \<open>listConversationsForUser\<close> of the absent
      \<open>@/lib/server-state\<close> (section 4.2, listForIdentity): every conversation where the
      identity is a participant, as of the call\<close>
  "listConversationsForUser st u =
     filter (\<lambda>c. u \<in> fst ` set (participants c)) (map snd (conversations st))"

section \<open>The routes\<close>

definition sanitizeName :: "jsvalue \<Rightarrow> jsstring" where
  "sanitizeName v =
     (case v of
        JOther \<Rightarrow> lit ''Anonymous''
      | JString s \<Rightarrow>
         (let trimmed = trim s
          in if length trimmed > 0 then slice_str trimmed 0 48 else lit ''Anonymous''))"

definition POST_user :: "state \<Rightarrow> body \<Rightarrow> (thrown + response) \<times> state" where
  \<comment> \<open>\<open>registerOrUpdateIdentity\<close>: POST of the user route\<close>
  "POST_user st b =
     (case b of
        JNull \<Rightarrow> (Inl TypeError, st)
      | JObject f \<Rightarrow>
         (case typeofString (f ''uid'') of
            None \<Rightarrow> (Inr (ErrorJson (Literal ''uid must be provided'') 400), st)
          | Some u \<Rightarrow>
             (if u = [] then (Inr (ErrorJson (Literal ''uid must be provided'') 400), st)
              else (case saveUser st u (sanitizeName (f ''name'')) of
                      (user, st') \<Rightarrow> (Inr (Json (UserJson user)), st')))))"

definition PUT_user :: "state \<Rightarrow> body \<Rightarrow> (thrown + response) \<times> state" where
  \<comment> \<open>\<open>renameIdentity\<close>: PUT of the user route; it has no \<open>try\<close>, so what
      \<open>renameParticipant\<close> raises leaves the handler as it is\<close>
  "PUT_user st b =
     (case b of
        JNull \<Rightarrow> (Inl TypeError, st)
      | JObject f \<Rightarrow>
         (case typeofString (f ''uid'') of
            None \<Rightarrow> (Inr (ErrorJson (Literal ''uid must be provided'') 400), st)
          | Some u \<Rightarrow>
             (if u = [] then (Inr (ErrorJson (Literal ''uid must be provided'') 400), st)
              else (case renameParticipant st u (sanitizeName (f ''name'')) of
                      Inl e \<Rightarrow> (Inl e, st)
                    | Inr (user, st') \<Rightarrow> (Inr (Json (UserJson user)), st')))))"

definition POST_connect :: "int \<Rightarrow> state \<Rightarrow> body \<Rightarrow> (thrown + response) \<times> state" where
  \<comment> \<open>\<open>connect\<close>: POST of the connect route\<close>
  "POST_connect now st b =
     (case b of
        JNull \<Rightarrow> (Inl TypeError, st)
      | JObject f \<Rightarrow>
         (let fromUid = typeofString (f ''fromUid''); toUid = typeofString (f ''toUid'')
          in if falsy fromUid \<or> falsy toUid
             then (Inr (ErrorJson (Literal ''fromUid and toUid are required'') 400), st)
             else (case ensureConversation now st (the fromUid) (the toUid) of
                     Inr (conversation, st') \<Rightarrow> (Inr (Json (ConversationJson conversation)), st')
                   | Inl e \<Rightarrow>
                      (if instanceofError e then (Inr (ErrorJson (MessageOf e) 400), st)
                       else (Inr (ErrorJson (Literal ''Unknown error'') 500), st)))))"

definition POST_message ::
  "int \<Rightarrow> jsstring \<Rightarrow> state \<Rightarrow> body \<Rightarrow> (thrown + response) \<times> state" where
  \<comment> \<open>\<open>sendMessage\<close>: POST of the message route\<close>
  "POST_message now mid st b =
     (case b of
        JNull \<Rightarrow> (Inl TypeError, st)
      | JObject f \<Rightarrow>
         (let conversationId = typeofString (f ''conversationId'');
              fromUid = typeofString (f ''fromUid'');
              txt = (case f ''text'' of JString s \<Rightarrow> trim s | JOther \<Rightarrow> [])
          in if falsy conversationId \<or> falsy fromUid \<or> length txt = 0
             then (Inr (ErrorJson
                     (Literal ''conversationId, fromUid, and non-empty text are required'') 400),
                   st)
             else (case getUser st (the fromUid) of
                     None \<Rightarrow> (Inr (ErrorJson (Literal ''User not found'') 404), st)
                   | Some user \<Rightarrow>
                      (case appendMessage now mid st (the conversationId) user
                              (slice_str txt 0 2000) of
                         Inr (message, st') \<Rightarrow> (Inr (Json (MessageJson message)), st')
                       | Inl e \<Rightarrow>
                          (if instanceofError e then (Inr (ErrorJson (MessageOf e) 400), st)
                           else (Inr (ErrorJson (Literal ''Unknown error'') 500), st))))))"

fun enqueueAll :: "chunk list \<Rightarrow> nat \<Rightarrow> state \<Rightarrow> bool \<times> state" where
  \<comment> \<open>the \<open>for\<close> loop of \<open>start\<close>: enqueue one chunk after the other; the flag tells
      whether the loop ran to its end or an \<open>enqueue\<close> raised\<close>
  "enqueueAll [] k st = (True, st)"
| "enqueueAll (c # cs) k st =
     (case enqueue c k st of None \<Rightarrow> (False, st) | Some st' \<Rightarrow> enqueueAll cs k st')"

definition GET_events :: "state \<Rightarrow> jsstring option \<Rightarrow> (thrown + response) \<times> state" where
  \<comment> \<open>\<open>openLiveFeed\<close>: GET of the events route, with the synchronous \<open>start\<close> of its
      stream. The new stream takes the next handle; \<open>cleanupRef\<close> is set before the
      subscription, the keep-alive interval after the snapshot.\<close>
  "GET_events st uidParam =
     (if falsy uidParam then (Inr (ErrorJson (Literal ''uid is required'') 400), st)
      else
        (let u = the uidParam;
             k = length (streams st);
             st0 = st\<lparr>streams := streams st @
                      [\<lparr>owner = u, queue = [], closed = False, keepAlive = False,
                        cleanupRef = True\<rparr>]\<rparr>;
             st1 = subscribeToUser u k st0
         in case enqueue (Data (Hello u)) k st1 of
              None \<Rightarrow> (Inl TypeError, st1)
            | Some st2 \<Rightarrow>
               (case enqueueAll (map (\<lambda>c. Data (ConversationEvent c))
                                  (listConversationsForUser st2 u)) k st2 of
                  (False, st3) \<Rightarrow> (Inl TypeError, st3)
                | (True, st3) \<Rightarrow>
                   (Inr (EventStream k),
                    st3\<lparr>streams := (streams st3)
                          [k := (streams st3 ! k)\<lparr>keepAlive := True\<rparr>]\<rparr>))))"

definition cleanup :: "nat \<Rightarrow> state \<Rightarrow> state" where
  \<comment> \<open>the \<open>cleanup\<close> closure of stream \<open>k\<close>: unsubscribe, clear the interval, close the
      controller (closing a closed one raises inside the \<open>try\<close>), drop \<open>cleanupRef\<close>\<close>
  "cleanup k st =
     (let st1 = unsubscribeFromUser (owner (streams st ! k)) k st
      in st1\<lparr>streams := (streams st1)
              [k := (streams st1 ! k)\<lparr>closed := True, keepAlive := False,
                                       cleanupRef := False\<rparr>]\<rparr>)"

definition abort :: "nat \<Rightarrow> state \<Rightarrow> state" where
  \<comment> \<open>the request of stream \<open>k\<close> is aborted: its listener runs \<open>cleanup\<close>\<close>
  "abort k st = (if k < length (streams st) then cleanup k st else st)"

definition cancel :: "nat \<Rightarrow> state \<Rightarrow> state" where
  \<comment> \<open>the consumer cancels stream \<open>k\<close>: the stream is closed and \<open>cleanupRef?.()\<close> runs\<close>
  "cancel k st =
     (if k < length (streams st)
      then (let st1 = st\<lparr>streams := (streams st)[k := (streams st ! k)\<lparr>closed := True\<rparr>]\<rparr>;
                st2 = (if cleanupRef (streams st1 ! k) then cleanup k st1 else st1)
            in st2\<lparr>streams := (streams st2)[k := (streams st2 ! k)\<lparr>cleanupRef := False\<rparr>]\<rparr>)
      else st)"

definition keepAliveTick :: "nat \<Rightarrow> state \<Rightarrow> state" where
  \<comment> \<open>the interval of stream \<open>k\<close> fires, while it is running: enqueue a ping comment (on a
      closed controller the callback raises and nothing changes)\<close>
  "keepAliveTick k st =
     (if k < length (streams st) \<and> keepAlive (streams st ! k)
      then (case enqueue Ping k st of None \<Rightarrow> st | Some st' \<Rightarrow> st')
      else st)"

section \<open>Runs of the server\<close>

text \<open>
  Every handler touches the state in one synchronous stretch (the only \<open>await\<close> of a route
  is the read of its request body, before the state is looked at; \<open>start\<close> is called
  synchronously by the stream's constructor), so the handlers of concurrent requests take
  turns over the shared state: a run of the server is a sequence of such turns, in any
  order. The clock reading and the fresh message id of a turn come with it.
\<close>

datatype action =
    PostUser body
  | PutUser body
  | PostConnect int body
  | PostMessage int jsstring body
  | GetEvents "jsstring option"
  | Abort nat
  | Cancel nat
  | KeepAliveTick nat

fun step :: "action \<Rightarrow> state \<Rightarrow> state" where
  "step (PostUser b) st = snd (POST_user st b)"
| "step (PutUser b) st = snd (PUT_user st b)"
| "step (PostConnect now b) st = snd (POST_connect now st b)"
| "step (PostMessage now mid b) st = snd (POST_message now mid st b)"
| "step (GetEvents u) st = snd (GET_events st u)"
| "step (Abort k) st = abort k st"
| "step (Cancel k) st = cancel k st"
| "step (KeepAliveTick k) st = keepAliveTick k st"

definition run :: "action list \<Rightarrow> state \<Rightarrow> state" where
  "run acts st = fold step acts st"

section \<open>What a live feed has been sent\<close>

fun snapshotOf :: "jsstring \<Rightarrow> chunk \<Rightarrow> conversation list" where
  \<comment> \<open>the conversation a chunk carries, when it is a "conversation" event of this id\<close>
  "snapshotOf cid (Data (ConversationEvent c)) = (if id_conv c = cid then [c] else [])"
| "snapshotOf cid x = []"

fun messageOf :: "jsstring \<Rightarrow> chunk \<Rightarrow> message list" where
  \<comment> \<open>the message a chunk carries, when it is a "message" event of this conversation\<close>
  "messageOf cid (Data (MessageEvent cid' m)) = (if cid' = cid then [m] else [])"
| "messageOf cid x = []"

definition snapshotsIn :: "jsstring \<Rightarrow> chunk list \<Rightarrow> conversation list" where
  "snapshotsIn cid q = concat (map (snapshotOf cid) q)"

definition messagesIn :: "jsstring \<Rightarrow> chunk list \<Rightarrow> message list" where
  "messagesIn cid q = concat (map (messageOf cid) q)"

definition deliverTo :: "chunk \<Rightarrow> nat set \<Rightarrow> stream list \<Rightarrow> stream list" where
  \<comment> \<open>the streams after the chunk has been enqueued on each open stream of a set\<close>
  "deliverTo c K ss =
     map (\<lambda>j. if j \<in> K \<and> \<not> closed (ss ! j)
              then (ss ! j)\<lparr>queue := queue (ss ! j) @ [c]\<rparr> else ss ! j) [0..<length ss]"

definition audience :: "state \<Rightarrow> jsstring list \<Rightarrow> nat set" where
  \<comment> \<open>the subscribers of a list of identities\<close>
  "audience st us = (\<Union>u\<in>set us. set (subscribers st u))"

definition opened :: "state \<Rightarrow> jsstring \<Rightarrow> state" where
  \<comment> \<open>the state after a live feed has been opened for an identity: the subscription and
      the new stream with its first chunks\<close>
  "opened st u =
     st\<lparr>subscribers := (subscribers st)
          (u := (if length (streams st) \<in> set (subscribers st u) then subscribers st u
                 else subscribers st u @ [length (streams st)])),
        streams := streams st @
          [\<lparr>owner = u,
            queue = Data (Hello u) #
                    map (\<lambda>c. Data (ConversationEvent c)) (listConversationsForUser st u),
            closed = False, keepAlive = True, cleanupRef = True\<rparr>]\<rparr>"

definition extends :: "stream list \<Rightarrow> stream list \<Rightarrow> bool" where
  \<comment> \<open>no stream is lost and every queue is continued\<close>
  "extends ss ss' \<longleftrightarrow>
     length ss \<le> length ss' \<and> (\<forall>k<length ss. prefix (queue (ss ! k)) (queue (ss' ! k)))"

definition consistent :: "state \<Rightarrow> bool" where
  \<comment> \<open>what every run keeps true of the store and the subscriptions: conversation ids are
      the keys they are stored under and are distinct, as are the participants of a
      conversation; a subscriber is registered once, under the identity of its stream, and
      its stream is open; no stream has been sent an event of a conversation that does not
      exist\<close>
  "consistent st \<longleftrightarrow>
     distinct (map fst (conversations st))
     \<and> (\<forall>x\<in>set (conversations st). id_conv (snd x) = fst x
            \<and> distinct (map fst (participants (snd x))))
     \<and> (\<forall>u. distinct (subscribers st u))
     \<and> (\<forall>u. \<forall>k\<in>set (subscribers st u).
            k < length (streams st) \<and> owner (streams st ! k) = u
            \<and> \<not> closed (streams st ! k) \<and> cleanupRef (streams st ! k))
     \<and> (\<forall>k<length (streams st). \<forall>cid. cid \<notin> fst ` set (conversations st) \<longrightarrow>
            snapshotsIn cid (queue (streams st ! k)) = []
            \<and> messagesIn cid (queue (streams st ! k)) = [])"

definition deliveredOnce :: "jsstring \<Rightarrow> conversation \<Rightarrow> chunk list \<Rightarrow> bool" where
  \<comment> \<open>the queue holds exactly one "conversation" event of this id, no "message" event of
      it before that one, and after it exactly the messages the stored conversation has
      beyond those of the event's payload, in order\<close>
  "deliveredOnce cid c q \<longleftrightarrow>
     (\<exists>q1 c0 q2. q = q1 @ Data (ConversationEvent c0) # q2 \<and> id_conv c0 = cid
        \<and> snapshotsIn cid q1 = [] \<and> messagesIn cid q1 = []
        \<and> snapshotsIn cid q2 = []
        \<and> messages c = messages c0 @ messagesIn cid q2)"

definition synchronised :: "state \<Rightarrow> bool" where
  \<comment> \<open>every subscriber has been sent each conversation of its identity exactly once\<close>
  "synchronised st \<longleftrightarrow>
     (\<forall>u. \<forall>k\<in>set (subscribers st u). \<forall>x\<in>set (conversations st).
        u \<in> fst ` set (participants (snd x)) \<longrightarrow>
        deliveredOnce (fst x) (snd x) (queue (streams st ! k)))"

definition ordered :: "conversation \<Rightarrow> bool" where
  \<comment> \<open>timestamps never decrease along the log and none exceeds \<open>updatedAt\<close>\<close>
  "ordered c \<longleftrightarrow>
     sorted (map timestamp (messages c))
     \<and> (\<forall>m\<in>set (messages c). timestamp m \<le> updatedAt c)"

section \<open>The scenario of the specification\<close>

definition alpha :: participant where
  "alpha = \<lparr>uid = lit ''alpha'', name = lit ''Alpha''\<rparr>"

definition beta :: participant where
  "beta = \<lparr>uid = lit ''beta'', name = lit ''Beta''\<rparr>"

definition registered :: state where
  \<comment> \<open>both identities registered, no conversation yet\<close>
  "registered = init\<lparr>users := [lit ''alpha'' \<mapsto> alpha, lit ''beta'' \<mapsto> beta]\<rparr>"

definition channel :: conversation where
  "channel = \<lparr>id_conv = conversationKey (lit ''alpha'') (lit ''beta''),
              participants = [(lit ''alpha'', alpha), (lit ''beta'', beta)],
              messages = [], updatedAt = 1\<rparr>"

definition connected :: state where
  \<comment> \<open>both identities registered and connected\<close>
  "connected = registered\<lparr>conversations := [(id_conv channel, channel)]\<rparr>"

definition grinning :: jsstring where
  \<comment> \<open>1999 letters and one emoji (U+1F600, a surrogate pair): 2001 code units\<close>
  "grinning = replicate 1999 0x61 @ [0xD83D, 0xDE00]"

definition jsonObject :: "(string \<times> jsstring) list \<Rightarrow> body" where
  \<comment> \<open>the JSON object with these string properties and no other\<close>
  "jsonObject kvs = JObject (\<lambda>k. case map_of kvs k of None \<Rightarrow> JOther | Some s \<Rightarrow> JString s)"

definition blank :: "jsvalue \<Rightarrow> bool" where
  \<comment> \<open>no string, or a string of white space only\<close>
  "blank v = (case v of JOther \<Rightarrow> True | JString s \<Rightarrow> list_all isWhite s)"

definition hi :: message where
  \<comment> \<open>the message of the scenario, sent at clock reading 5\<close>
  "hi = \<lparr>id_msg = lit ''m1'', conversationId = id_conv channel, from_msg = Some (lit ''alpha''),
         text_msg = lit ''hi'', kind = KindMessage, timestamp = 5\<rparr>"

definition talking :: state where
  \<comment> \<open>the state after both have registered and connected, beta has opened a live feed
      and alpha has sent "hi"\<close>
  "talking =
     connected\<lparr>conversations := [(id_conv channel, channel\<lparr>messages := [hi], updatedAt := 5\<rparr>)],
               subscribers := (\<lambda>u. [])(lit ''beta'' := [0]),
               streams := [\<lparr>owner = lit ''beta'',
                            queue = [Data (Hello (lit ''beta'')), Data (ConversationEvent channel),
                                     Data (MessageEvent (id_conv channel) hi)],
                            closed = False, keepAlive = True, cleanupRef = True\<rparr>]\<rparr>"

section \<open>Error kinds of a call\<close>

definition httpStatus :: "error_kind \<Rightarrow> nat" where
  \<comment> \<open>the status under which the routes report each kind: 400 with "... are required",
      404 with "User not found", 500 with "Unknown error"\<close>
  "httpStatus k = (case k of InvalidArgument \<Rightarrow> 400 | NotFound \<Rightarrow> 404 | Internal \<Rightarrow> 500)"

fun failsWith :: "thrown + response \<Rightarrow> error_kind \<Rightarrow> bool" where
  \<comment> \<open>a call fails with a kind when the route answers with that kind's status, or when
      an error of that kind leaves the handler uncaught\<close>
  "failsWith (Inr (ErrorJson e s)) k = (s = httpStatus k)"
| "failsWith (Inl (Error k')) k = (k' = k)"
| "failsWith r k = False"

section \<open>Well-formed UTF-16\<close>

definition isHighSurrogate :: "16 word \<Rightarrow> bool" where
  "isHighSurrogate c = (0xD800 \<le> c \<and> c \<le> 0xDBFF)"

definition isLowSurrogate :: "16 word \<Rightarrow> bool" where
  "isLowSurrogate c = (0xDC00 \<le> c \<and> c \<le> 0xDFFF)"

fun wellFormed :: "jsstring \<Rightarrow> bool" where
  \<comment> \<open>the code units spell whole code points: every surrogate stands in a pair\<close>
  "wellFormed [] = True"
| "wellFormed [c] = (\<not> isHighSurrogate c \<and> \<not> isLowSurrogate c)"
| "wellFormed (c # d # cs) =
     (if isHighSurrogate c then isLowSurrogate d \<and> wellFormed cs
      else \<not> isLowSurrogate c \<and> wellFormed (d # cs))"

section \<open>Properties\<close>

subsection \<open>Trimming\<close>

lemma trim_Nil_iff: "trim s = [] \<longleftrightarrow> (\<forall>c\<in>set s. isWhite c)"
proof
  assume "trim s = []"
  then have all: "\<forall>c\<in>set (dropWhile isWhite s). isWhite c"
    by (simp add: trim_def)
  have "dropWhile isWhite s = []"
  proof (rule ccontr)
    assume ne: "dropWhile isWhite s \<noteq> []"
    then have "\<not> isWhite (hd (dropWhile isWhite s))"
      by (rule hd_dropWhile)
    moreover have "hd (dropWhile isWhite s) \<in> set (dropWhile isWhite s)"
      using ne by simp
    ultimately show False using all by blast
  qed
  then show "\<forall>c\<in>set s. isWhite c" by simp
next
  assume "\<forall>c\<in>set s. isWhite c"
  then have d: "dropWhile isWhite s = []" by simp
  show "trim s = []" unfolding trim_def d by simp
qed

subsection \<open>Display names\<close>

lemma sanitizeName_eq:
  "sanitizeName v =
     (case v of JOther \<Rightarrow> lit ''Anonymous''
      | JString s \<Rightarrow> if (\<forall>c\<in>set s. isWhite c) then lit ''Anonymous'' else take 48 (trim s))"
  by (simp add: sanitizeName_def slice_str_def Let_def trim_Nil_iff split: jsvalue.splits)

lemma sanitizeName_nonempty: "sanitizeName v \<noteq> []"
  by (auto simp: sanitizeName_def slice_str_def Let_def lit_def split: jsvalue.splits)

lemma sanitizeName_length: "length (sanitizeName v) \<le> 48"
  by (auto simp: sanitizeName_def slice_str_def Let_def lit_def split: jsvalue.splits)

lemma users_setName: "users (setName u n st) u = map_option (\<lambda>p. p\<lparr>name := n\<rparr>) (users st u)"
  by (simp add: setName_def split: option.splits)

text \<open>
  C8. For every name value sent to \<open>registerOrUpdateIdentity\<close> together with an identity id
  (a non-empty string \<open>uid\<close>), the call succeeds, and the display name it stores and
  returns is \<open>"Anonymous"\<close> when the name is missing, not a string or blank after trimming,
  and otherwise the trimmed name cut to its first 48 characters (UTF-16 code units, the
  unit of \<open>slice\<close>); it is never longer than 48.
\<close>

theorem registerOrUpdateIdentity_name:
  assumes "f ''uid'' = JString u" and "u \<noteq> []"
  shows "\<exists>p st'. POST_user st (JObject f) = (Inr (Json (UserJson p)), st')
           \<and> users st' u = Some p
           \<and> name p = (case f ''name'' of
                         JOther \<Rightarrow> lit ''Anonymous''
                       | JString s \<Rightarrow> if (\<forall>c\<in>set s. isWhite c) then lit ''Anonymous''
                                      else take 48 (trim s))
           \<and> length (name p) \<le> 48"
proof (cases "users st u")
  case None
  then show ?thesis using assms
    by (simp add: POST_user_def typeofString_def saveUser_def sanitizeName_length
        sanitizeName_eq[symmetric])
next
  case (Some q)
  then show ?thesis using assms
    by (simp add: POST_user_def typeofString_def saveUser_def sanitizeName_length
        sanitizeName_nonempty users_setName sanitizeName_eq[symmetric])
qed

theorem registerOrUpdateIdentity_name_witness:
  "\<exists>p st'. POST_user init (JObject ((\<lambda>_. JOther)(''uid'' := JString (lit ''alpha''),
               ''name'' := JString (lit ''  Alpha ''))))
             = (Inr (Json (UserJson p)), st')
         \<and> users st' (lit ''alpha'') = Some p \<and> name p = lit ''Alpha''"
  using registerOrUpdateIdentity_name[of "(\<lambda>_. JOther)(''uid'' := JString (lit ''alpha''),
               ''name'' := JString (lit ''  Alpha ''))" "lit ''alpha''" init]
  by (auto simp add: lit_def trim_def isWhite_def)

subsection \<open>Message text\<close>

lemma hd_trim: "trim s \<noteq> [] \<Longrightarrow> \<not> isWhite (hd (trim s))"
proof -
  assume ne: "trim s \<noteq> []"
  define d where "d = dropWhile isWhite s"
  have dne: "d \<noteq> []" using ne by (auto simp: trim_def d_def dest: set_dropWhileD)
  then obtain x d' where d: "d = x # d'" by (cases d) auto
  have nx: "\<not> isWhite x" using hd_dropWhile[of isWhite s] dne d by (simp add: d_def)
  have "\<exists>zs. dropWhile isWhite (rev d) = zs @ [x]"
    using nx by (simp add: d dropWhile_append)
  then obtain zs where "dropWhile isWhite (rev d) = zs @ [x]" by blast
  then have "trim s = x # rev zs" by (simp add: trim_def d_def)
  then show ?thesis using nx by simp
qed

lemma trim_take_nonempty:
  assumes "trim s \<noteq> []" and "0 < n"
  shows "trim (take n (trim s)) \<noteq> []"
proof -
  have "hd (take n (trim s)) = hd (trim s)" using assms by (cases "trim s") (auto simp: take_Suc_conv_app_nth gr0_conv_Suc)
  moreover have "take n (trim s) \<noteq> []" using assms by simp
  ultimately have "hd (trim s) \<in> set (take n (trim s))"
    by (metis hd_in_set)
  then show ?thesis using hd_trim[OF assms(1)] by (auto simp: trim_Nil_iff)
qed

lemma trim_id: "s \<noteq> [] \<Longrightarrow> \<not> isWhite (hd s) \<Longrightarrow> \<not> isWhite (last s) \<Longrightarrow> trim s = s"
proof -
  assume a: "s \<noteq> []" "\<not> isWhite (hd s)" "\<not> isWhite (last s)"
  then have 1: "dropWhile isWhite s = s" by (cases s) auto
  have 2: "dropWhile isWhite (rev s) = rev s" using a(1,3) by (cases s rule: rev_cases) auto
  show ?thesis by (simp add: trim_def 1 2)
qed

subsection \<open>Frame lemmas of delivery\<close>

lemma enqueue_frame:
  "enqueue c k st = Some st' \<Longrightarrow>
     users st' = users st \<and> conversations st' = conversations st \<and> subscribers st' = subscribers st"
  by (auto simp: enqueue_def split: if_splits)

lemma push_frame [simp]:
  "users (push ev k st) = users st"
  "conversations (push ev k st) = conversations st"
  "subscribers (push ev k st) = subscribers st"
  by (auto simp: push_def dest: enqueue_frame split: option.splits)

lemma fold_push_frame [simp]:
  "users (fold (push ev) ks st) = users st"
  "conversations (fold (push ev) ks st) = conversations st"
  "subscribers (fold (push ev) ks st) = subscribers st"
  by (induction ks arbitrary: st) auto

lemma publish_frame [simp]:
  "users (publish u ev st) = users st"
  "conversations (publish u ev st) = conversations st"
  "subscribers (publish u ev st) = subscribers st"
  by (simp_all add: publish_def)

lemma fold_publish_frame [simp]:
  "users (fold (\<lambda>u. publish u ev) us st) = users st"
  "conversations (fold (\<lambda>u. publish u ev) us st) = conversations st"
  "subscribers (fold (\<lambda>u. publish u ev) us st) = subscribers st"
  by (induction us arbitrary: st) auto

lemma blank_iff: "blank v \<longleftrightarrow> (case v of JOther \<Rightarrow> True | JString s \<Rightarrow> trim s = [])"
  by (simp add: blank_def trim_Nil_iff list_all_iff split: jsvalue.splits)

lemma POST_message_blank:
  assumes "blank (f ''text'')"
  shows "POST_message now mid st (JObject f)
           = (Inr (ErrorJson (Literal ''conversationId, fromUid, and non-empty text are required'') 400), st)"
  using assms by (auto simp: POST_message_def Let_def blank_iff split: jsvalue.splits)

text \<open>
  C5. For every conversation id and author, \<open>sendMessage\<close> with a text that is empty or
  consists of white space only fails with InvalidArgument (status 400), and the state,
  hence every conversation's message list and \<open>updatedAt\<close>, is unchanged.
\<close>

theorem sendMessage_blank_text:
  assumes "f ''text'' = JString t" and "\<forall>c\<in>set t. isWhite c"
  shows "failsWith (fst (POST_message now mid st (JObject f))) InvalidArgument
         \<and> snd (POST_message now mid st (JObject f)) = st"
proof -
  have "blank (f ''text'')" using assms by (simp add: blank_def list_all_iff)
  then show ?thesis by (simp add: POST_message_blank httpStatus_def)
qed

theorem sendMessage_blank_text_witness:
  "failsWith (fst (POST_message 5 (lit ''m1'') connected
       (jsonObject [(''conversationId'', id_conv channel), (''fromUid'', lit ''alpha''),
                (''text'', lit ''   '')]))) InvalidArgument
   \<and> snd (POST_message 5 (lit ''m1'') connected
       (jsonObject [(''conversationId'', id_conv channel), (''fromUid'', lit ''alpha''),
                (''text'', lit ''   '')])) = connected"
  using sendMessage_blank_text[of "\<lambda>k. case map_of [(''conversationId'', id_conv channel),
         (''fromUid'', lit ''alpha''), (''text'', lit ''   '')] k of
           None \<Rightarrow> JOther | Some s \<Rightarrow> JString s" "lit ''   ''" 5 "lit ''m1''" connected]
  by (simp add: jsonObject_def lit_def isWhite_def)

lemma appendMessage_ok:
  assumes "map_of (conversations st) cid = Some c" and "trim txt \<noteq> []"
    and "uid p \<in> fst ` set (participants c)"
  shows "\<exists>m st'. appendMessage now mid st cid p txt = Inr (m, st')
            \<and> m = \<lparr>id_msg = mid, conversationId = cid, from_msg = Some (uid p),
                      text_msg = txt, kind = KindMessage, timestamp = max now (updatedAt c)\<rparr>
            \<and> users st' = users st \<and> subscribers st' = subscribers st
            \<and> conversations st' = AList.update cid
                 (c\<lparr>messages := messages c @ [m], updatedAt := max now (updatedAt c)\<rparr>)
                 (conversations st)"
  using assms by (simp add: appendMessage_def Let_def)

lemma wellFormed_Cons_plain:
  "\<not> isHighSurrogate a \<Longrightarrow> \<not> isLowSurrogate a \<Longrightarrow> ys \<noteq> [] \<Longrightarrow>
     wellFormed (a # ys) = wellFormed ys"
  by (cases ys) auto

lemma wellFormed_replicate:
  "\<not> isHighSurrogate a \<Longrightarrow> \<not> isLowSurrogate a \<Longrightarrow>
     wellFormed (replicate n a @ x # xs) = wellFormed (x # xs)"
  by (induction n) (simp_all add: wellFormed_Cons_plain)

lemma trim_grinning: "trim grinning = grinning"
  by (rule trim_id) (simp_all add: grinning_def isWhite_def hd_append)

lemma split_example:
  "\<exists>s. wellFormed s \<and> 2000 < length (trim s) \<and> \<not> wellFormed (take 2000 (trim s))"
proof -
  have "wellFormed grinning"
    by (simp add: grinning_def wellFormed_replicate isHighSurrogate_def isLowSurrogate_def)
  moreover have "2000 < length (trim grinning)"
    by (simp add: trim_grinning) (simp add: grinning_def)
  moreover have "\<not> wellFormed (take 2000 (trim grinning))"
    by (simp add: trim_grinning) (simp add: grinning_def wellFormed_replicate isHighSurrogate_def isLowSurrogate_def)
  ultimately show ?thesis by blast
qed

text \<open>
  C10. A \<open>sendMessage\<close> request whose trimmed text is longer than 2000 code units is not
  rejected for its length: sent by a registered participant of an existing conversation it
  succeeds, and the stored message's text is the first 2000 UTF-16 code units of the
  trimmed input. Cutting there can split a surrogate pair: there is a well-formed text
  whose stored prefix is not well-formed.
\<close>

theorem sendMessage_truncates:
  assumes "f ''conversationId'' = JString cid" and "cid \<noteq> []"
    and "f ''fromUid'' = JString u" and "u \<noteq> []"
    and "f ''text'' = JString t" and "2000 < length (trim t)"
    and "users st u = Some p"
    and "map_of (conversations st) cid = Some c"
    and "uid p \<in> fst ` set (participants c)"
  shows "(\<exists>m st' c'. POST_message now mid st (JObject f) = (Inr (Json (MessageJson m)), st')
            \<and> text_msg m = take 2000 (trim t) \<and> length (text_msg m) = 2000
            \<and> map_of (conversations st') cid = Some c'
            \<and> messages c' = messages c @ [m])
         \<and> (\<exists>s. wellFormed s \<and> 2000 < length (trim s) \<and> \<not> wellFormed (take 2000 (trim s)))"
proof -
  have ne: "trim t \<noteq> []" using assms(6) by auto
  have ne': "trim (take 2000 (trim t)) \<noteq> []"
    by (rule trim_take_nonempty[OF ne]) simp
  obtain m st' where app: "appendMessage now mid st cid p (take 2000 (trim t)) = Inr (m, st')"
    and m: "text_msg m = take 2000 (trim t)"
    and cs: "conversations st' = AList.update cid
                 (c\<lparr>messages := messages c @ [m], updatedAt := max now (updatedAt c)\<rparr>)
                 (conversations st)"
    using appendMessage_ok[OF assms(8) ne' assms(9), of now mid] by auto
  have post: "POST_message now mid st (JObject f) = (Inr (Json (MessageJson m)), st')"
    using assms(1-5,7) ne app
    by (simp add: POST_message_def Let_def typeofString_def falsy_def getUser_def slice_str_def)
  have len: "length (text_msg m) = 2000" using m assms(6) by simp
  have look: "map_of (conversations st') cid
      = Some (c\<lparr>messages := messages c @ [m], updatedAt := max now (updatedAt c)\<rparr>)"
    by (simp add: cs update_conv')
  have first: "\<exists>m st' c'. POST_message now mid st (JObject f) = (Inr (Json (MessageJson m)), st')
            \<and> text_msg m = take 2000 (trim t) \<and> length (text_msg m) = 2000
            \<and> map_of (conversations st') cid = Some c'
            \<and> messages c' = messages c @ [m]"
    using post m len look by auto
  show ?thesis using first split_example by blast
qed

lemma users_connected:
  "users connected (lit ''alpha'') = Some alpha" "users connected (lit ''beta'') = Some beta"
  by (simp_all add: connected_def registered_def init_def lit_def)

lemma conversations_connected: "map_of (conversations connected) (id_conv channel) = Some channel"
  by (simp add: connected_def)

theorem sendMessage_truncates_witness:
  "\<exists>m st'. POST_message 5 (lit ''m1'') connected
       (jsonObject [(''conversationId'', id_conv channel), (''fromUid'', lit ''alpha''),
                (''text'', grinning)]) = (Inr (Json (MessageJson m)), st')
         \<and> text_msg m = replicate 1999 0x61 @ [0xD83D]
         \<and> \<not> wellFormed (text_msg m)"
proof -
  have id: "id_conv channel \<noteq> []" by (simp add: channel_def conversationKey_def lit_def)
  have tk: "take 2000 grinning = replicate 1999 0x61 @ [0xD83D]" by (simp add: grinning_def)
  have nw: "\<not> wellFormed (replicate 1999 0x61 @ [0xD83D])"
    by (simp add: wellFormed_replicate isHighSurrogate_def isLowSurrogate_def)
  show ?thesis
    using sendMessage_truncates[of "\<lambda>k. case map_of [(''conversationId'', id_conv channel),
         (''fromUid'', lit ''alpha''), (''text'', grinning)] k of
           None \<Rightarrow> JOther | Some s \<Rightarrow> JString s" "id_conv channel" "lit ''alpha''" grinning
         connected alpha channel 5 "lit ''m1''"] id nw
    apply (simp add: jsonObject_def trim_grinning users_connected conversations_connected tk)
    apply (simp add: grinning_def lit_def alpha_def channel_def)
    apply (elim conjE exE)
    subgoal for m st' by (intro exI[of _ m] conjI exI[of _ st']) simp_all
    done
qed


subsection \<open>Unknown conversations\<close>

lemma appendMessage_unknown:
  "map_of (conversations st) cid = None \<Longrightarrow> appendMessage now mid st cid p txt = Inl (Error NotFound)"
  by (simp add: appendMessage_def)

lemma POST_message_unknown:
  assumes "f ''conversationId'' = JString cid" and "map_of (conversations st) cid = None"
  shows "POST_message now mid st (JObject f) =
     (if cid = [] \<or> falsy (typeofString (f ''fromUid'')) \<or> blank (f ''text'')
      then (Inr (ErrorJson (Literal ''conversationId, fromUid, and non-empty text are required'') 400), st)
      else case users st (the (typeofString (f ''fromUid''))) of
             None \<Rightarrow> (Inr (ErrorJson (Literal ''User not found'') 404), st)
           | Some p \<Rightarrow> (Inr (ErrorJson (MessageOf (Error NotFound)) 400), st))"
  using assms
  by (auto simp: POST_message_def Let_def typeofString_def falsy_def getUser_def blank_iff
      appendMessage_unknown split: jsvalue.splits option.splits)

text \<open>
  C2, as the code has it. A \<open>sendMessage\<close> on a conversation id that names no existing
  conversation never succeeds and leaves the state as it was. The request is validated
  before the store is asked: when the conversation id, the sender id or the trimmed text is
  empty it fails with InvalidArgument (status 400); otherwise, when the sender is not
  registered, it fails with "User not found" (status 404); otherwise the store's append
  raises NotFound, whatever the text, and the route answers with an error response that
  carries that error's message.
\<close>

theorem sendMessage_unknown_conversation:
  assumes "f ''conversationId'' = JString cid" and "map_of (conversations st) cid = None"
  shows "snd (POST_message now mid st (JObject f)) = st
     \<and> (\<forall>p. fst (POST_message now mid st (JObject f)) \<noteq> Inr (Json p))
     \<and> (cid = [] \<or> falsy (typeofString (f ''fromUid'')) \<or> blank (f ''text'')
          \<longrightarrow> failsWith (fst (POST_message now mid st (JObject f))) InvalidArgument)
     \<and> (cid \<noteq> [] \<and> \<not> blank (f ''text'') \<and> f ''fromUid'' = JString u \<and> u \<noteq> []
          \<longrightarrow> (case users st u of
                 None \<Rightarrow> fst (POST_message now mid st (JObject f))
                           = Inr (ErrorJson (Literal ''User not found'') 404)
               | Some p \<Rightarrow> (\<forall>txt. appendMessage now mid st cid p txt = Inl (Error NotFound))
                   \<and> (\<exists>s. fst (POST_message now mid st (JObject f))
                             = Inr (ErrorJson (MessageOf (Error NotFound)) s))))"
  using assms POST_message_unknown[of f cid st now mid]
  by (auto simp: httpStatus_def typeofString_def falsy_def appendMessage_unknown
      split: option.splits)

lemma users_registered:
  "users registered (lit ''alpha'') = Some alpha" "users registered (lit ''beta'') = Some beta"
  by (simp_all add: registered_def init_def lit_def)

theorem sendMessage_unknown_conversation_witness:
  "snd (POST_message 5 (lit ''m1'') registered
          (jsonObject [(''conversationId'', lit ''nowhere''), (''fromUid'', lit ''alpha''),
                   (''text'', lit ''hi'')])) = registered
   \<and> (\<exists>s. fst (POST_message 5 (lit ''m1'') registered
          (jsonObject [(''conversationId'', lit ''nowhere''), (''fromUid'', lit ''alpha''),
                   (''text'', lit ''hi'')])) = Inr (ErrorJson (MessageOf (Error NotFound)) s))"
  using sendMessage_unknown_conversation[of "\<lambda>k. case map_of [(''conversationId'', lit ''nowhere''),
         (''fromUid'', lit ''alpha''), (''text'', lit ''hi'')] k of
           None \<Rightarrow> JOther | Some s \<Rightarrow> JString s" "lit ''nowhere''" registered 5 "lit ''m1''"
         "lit ''alpha''"]
  by (simp add: jsonObject_def users_registered)
     (simp add: registered_def init_def blank_def lit_def isWhite_def)

text \<open>
  C2 as stated fails: on an unknown conversation id a request with a blank text is turned
  down as InvalidArgument, not as NotFound.
\<close>

theorem sendMessage_unknown_conversation_counterexample:
  "map_of (conversations registered) (lit ''nowhere'') = None
   \<and> failsWith (fst (POST_message 5 (lit ''m1'') registered
          (jsonObject [(''conversationId'', lit ''nowhere''), (''fromUid'', lit ''alpha''),
                   (''text'', lit ''   '')]))) InvalidArgument
   \<and> \<not> failsWith (fst (POST_message 5 (lit ''m1'') registered
          (jsonObject [(''conversationId'', lit ''nowhere''), (''fromUid'', lit ''alpha''),
                   (''text'', lit ''   '')]))) NotFound"
  by (simp add: POST_message_def jsonObject_def Let_def typeofString_def falsy_def
      registered_def init_def lit_def trim_def isWhite_def httpStatus_def)

subsection \<open>Renaming\<close>

text \<open>
  C6. For every identity id (a non-empty string) that is not in the registry,
  \<open>renameIdentity\<close> fails with NotFound: the error of the store leaves the handler, which
  has no \<open>try\<close>. The state is unchanged, so the identity is not created.
\<close>

theorem renameIdentity_unknown:
  assumes "f ''uid'' = JString u" and "u \<noteq> []" and "users st u = None"
  shows "PUT_user st (JObject f) = (Inl (Error NotFound), st)
       \<and> failsWith (fst (PUT_user st (JObject f))) NotFound
       \<and> users (snd (PUT_user st (JObject f))) u = None"
  using assms by (simp add: PUT_user_def typeofString_def renameParticipant_def)

theorem renameIdentity_unknown_witness:
  "PUT_user registered (jsonObject [(''uid'', lit ''gamma''), (''name'', lit ''Gamma'')])
     = (Inl (Error NotFound), registered)"
  using renameIdentity_unknown[of "\<lambda>k. case map_of [(''uid'', lit ''gamma''),
      (''name'', lit ''Gamma'')] k of None \<Rightarrow> JOther | Some s \<Rightarrow> JString s" "lit ''gamma''" registered]
  by (simp add: jsonObject_def registered_def init_def lit_def)

subsection \<open>Registering again\<close>

text \<open>
  C9, as the code has it. For an identity already in the registry,
  \<open>registerOrUpdateIdentity\<close> with a blank name (missing, not a string, or white space
  only) sets the stored display name to \<open>"Anonymous"\<close>: the route replaces a blank name by
  that default before it calls the store. Only the store's upsert, called with the empty
  name, leaves the registry as it was.
\<close>

theorem registerOrUpdateIdentity_blank:
  assumes "f ''uid'' = JString u" and "u \<noteq> []" and "users st u = Some p"
    and "blank (f ''name'')"
  shows "map_option name (users (snd (POST_user st (JObject f))) u) = Some (lit ''Anonymous'')
       \<and> saveUser st u [] = (p, st)
       \<and> (\<forall>v. sanitizeName v \<noteq> [])"
proof -
  have "sanitizeName (f ''name'') = lit ''Anonymous''"
    using assms(4) by (auto simp: sanitizeName_def blank_iff Let_def split: jsvalue.splits)
  then show ?thesis using assms(1-3)
    by (simp add: POST_user_def typeofString_def saveUser_def users_setName sanitizeName_nonempty
        lit_def)
qed

theorem registerOrUpdateIdentity_blank_witness:
  "map_option name (users (snd (POST_user registered
       (jsonObject [(''uid'', lit ''alpha''), (''name'', lit '' '')]))) (lit ''alpha''))
     = Some (lit ''Anonymous'')
   \<and> saveUser registered (lit ''alpha'') [] = (alpha, registered)"
  using registerOrUpdateIdentity_blank[of "\<lambda>k. case map_of [(''uid'', lit ''alpha''),
      (''name'', lit '' '')] k of None \<Rightarrow> JOther | Some s \<Rightarrow> JString s" "lit ''alpha''" registered alpha]
  by (simp add: jsonObject_def users_registered)
     (simp add: blank_def lit_def isWhite_def)

text \<open>
  C9 as stated fails: registering \<open>alpha\<close>, stored as "Alpha", again with a blank name
  stores "Anonymous".
\<close>

theorem registerOrUpdateIdentity_blank_counterexample:
  "map_option name (users registered (lit ''alpha'')) = Some (lit ''Alpha'')
   \<and> map_option name (users (snd (POST_user registered
       (jsonObject [(''uid'', lit ''alpha''), (''name'', lit '' '')]))) (lit ''alpha''))
       = Some (lit ''Anonymous'')
   \<and> lit ''Anonymous'' \<noteq> lit ''Alpha''"
  by (simp add: POST_user_def jsonObject_def typeofString_def saveUser_def users_setName
      users_registered sanitizeName_def Let_def alpha_def)
     (simp add: lit_def trim_def isWhite_def)

subsection \<open>Connecting\<close>

lemma conversationKey_commute: "conversationKey a b = conversationKey b a"
  by (auto simp: conversationKey_def)

lemma ensureConversation_existing:
  assumes "a \<noteq> b" and "users st a = Some pa" and "users st b = Some pb"
    and "map_of (conversations st) (conversationKey a b) = Some c"
  shows "ensureConversation now st a b = Inr (c, st)"
  using assms by (simp add: ensureConversation_def)

lemma ensureConversation_new:
  assumes "a \<noteq> b" and "users st a = Some pa" and "users st b = Some pb"
    and "map_of (conversations st) (conversationKey a b) = None"
  shows "\<exists>st'. ensureConversation now st a b
            = Inr (\<lparr>id_conv = conversationKey a b, participants = [(a, pa), (b, pb)],
                    messages = [], updatedAt = now\<rparr>, st')
          \<and> users st' = users st \<and> subscribers st' = subscribers st
          \<and> conversations st' = conversations st @
               [(conversationKey a b,
                 \<lparr>id_conv = conversationKey a b, participants = [(a, pa), (b, pb)],
                  messages = [], updatedAt = now\<rparr>)]"
  using assms by (simp add: ensureConversation_def Let_def)

lemma POST_connect_ensure:
  assumes "f ''fromUid'' = JString a" and "f ''toUid'' = JString b"
    and "a \<noteq> []" and "b \<noteq> []" and "ensureConversation now st a b = Inr (c, st')"
  shows "POST_connect now st (JObject f) = (Inr (Json (ConversationJson c)), st')"
  using assms by (simp add: POST_connect_def typeofString_def falsy_def)

lemma map_of_snoc_new: "map_of xs k = None \<Longrightarrow> map_of (xs @ [(k, v)]) k = Some v"
  by (simp add: map_add_def)

text \<open>
  C1. For two distinct registered identities \<open>a\<close> and \<open>b\<close> (their ids non-empty strings),
  \<open>connect(a,b)\<close> and \<open>connect(b,a)\<close> both succeed and return conversations with the same
  id and the same set of participant ids; after either call, a second call in either order
  returns that same conversation and leaves the state as it is, so no second conversation
  is created.
\<close>

theorem connect_symmetric_idempotent:
  assumes "fa ''fromUid'' = JString a" and "fa ''toUid'' = JString b"
    and "fb ''fromUid'' = JString b" and "fb ''toUid'' = JString a"
    and "a \<noteq> b" and "a \<noteq> []" and "b \<noteq> []"
    and "users st a = Some pa" and "users st b = Some pb"
  shows "\<exists>c1 st1 c2 st2.
       POST_connect now1 st (JObject fa) = (Inr (Json (ConversationJson c1)), st1)
     \<and> POST_connect now2 st (JObject fb) = (Inr (Json (ConversationJson c2)), st2)
     \<and> id_conv c1 = id_conv c2
     \<and> fst ` set (participants c1) = fst ` set (participants c2)
     \<and> POST_connect now3 st1 (JObject fa) = (Inr (Json (ConversationJson c1)), st1)
     \<and> POST_connect now3 st1 (JObject fb) = (Inr (Json (ConversationJson c1)), st1)
     \<and> POST_connect now3 st2 (JObject fa) = (Inr (Json (ConversationJson c2)), st2)
     \<and> POST_connect now3 st2 (JObject fb) = (Inr (Json (ConversationJson c2)), st2)"
proof (cases "map_of (conversations st) (conversationKey a b)")
  case (Some c)
  have ab: "ensureConversation n st a b = Inr (c, st)" for n
    using ensureConversation_existing[OF assms(5,8,9) Some] .
  have ba: "ensureConversation n st b a = Inr (c, st)" for n
    using ensureConversation_existing[OF assms(5)[symmetric] assms(9,8)] Some
    by (simp add: conversationKey_commute)
  have A: "POST_connect n st (JObject fa) = (Inr (Json (ConversationJson c)), st)" for n
    using POST_connect_ensure[OF assms(1,2,6,7) ab] .
  have B: "POST_connect n st (JObject fb) = (Inr (Json (ConversationJson c)), st)" for n
    using POST_connect_ensure[OF assms(3,4,7,6) ba] .
  show ?thesis using A B by blast
next
  case None
  define key where "key = conversationKey a b"
  have key': "conversationKey b a = key" by (simp add: key_def conversationKey_commute)
  define c1 where "c1 = \<lparr>id_conv = key, participants = [(a, pa), (b, pb)],
                         messages = [], updatedAt = now1\<rparr>"
  define c2 where "c2 = \<lparr>id_conv = key, participants = [(b, pb), (a, pa)],
                         messages = [], updatedAt = now2\<rparr>"
  obtain st1 where e1: "ensureConversation now1 st a b = Inr (c1, st1)"
    and u1: "users st1 = users st"
    and cs1: "conversations st1 = conversations st @ [(key, c1)]"
    using ensureConversation_new[OF assms(5,8,9) None, of now1] by (auto simp: c1_def key_def)
  have None': "map_of (conversations st) (conversationKey b a) = None"
    using None by (simp add: conversationKey_commute)
  obtain st2 where e2: "ensureConversation now2 st b a = Inr (c2, st2)"
    and u2: "users st2 = users st"
    and cs2: "conversations st2 = conversations st @ [(key, c2)]"
    using ensureConversation_new[OF assms(5)[symmetric] assms(9,8) None', of now2]
    by (auto simp: c2_def key')
  have l1: "map_of (conversations st1) key = Some c1"
    unfolding cs1 key_def by (rule map_of_snoc_new[OF None])
  have l2: "map_of (conversations st2) key = Some c2"
    unfolding cs2 key_def by (rule map_of_snoc_new[OF None])
  have r1ab: "ensureConversation now3 st1 a b = Inr (c1, st1)"
    by (rule ensureConversation_existing[OF assms(5)]) (simp_all add: u1 assms l1 key_def[symmetric])
  have r1ba: "ensureConversation now3 st1 b a = Inr (c1, st1)"
    by (rule ensureConversation_existing[OF assms(5)[symmetric]]) (simp_all add: u1 assms l1 key')
  have r2ab: "ensureConversation now3 st2 a b = Inr (c2, st2)"
    by (rule ensureConversation_existing[OF assms(5)]) (simp_all add: u2 assms l2 key_def[symmetric])
  have r2ba: "ensureConversation now3 st2 b a = Inr (c2, st2)"
    by (rule ensureConversation_existing[OF assms(5)[symmetric]]) (simp_all add: u2 assms l2 key')
  have "id_conv c1 = id_conv c2" by (simp add: c1_def c2_def)
  moreover have "fst ` set (participants c1) = fst ` set (participants c2)"
    by (auto simp: c1_def c2_def)
  ultimately show ?thesis
    using POST_connect_ensure[OF assms(1,2,6,7) e1] POST_connect_ensure[OF assms(3,4,7,6) e2]
      POST_connect_ensure[OF assms(1,2,6,7) r1ab] POST_connect_ensure[OF assms(3,4,7,6) r1ba]
      POST_connect_ensure[OF assms(1,2,6,7) r2ab] POST_connect_ensure[OF assms(3,4,7,6) r2ba]
    by blast
qed

theorem connect_symmetric_idempotent_witness:
  "\<exists>c1 st1 c2 st2.
       POST_connect 1 registered (jsonObject [(''fromUid'', lit ''alpha''), (''toUid'', lit ''beta'')])
         = (Inr (Json (ConversationJson c1)), st1)
     \<and> POST_connect 2 registered (jsonObject [(''fromUid'', lit ''beta''), (''toUid'', lit ''alpha'')])
         = (Inr (Json (ConversationJson c2)), st2)
     \<and> id_conv c1 = id_conv c2
     \<and> fst ` set (participants c1) = fst ` set (participants c2)
     \<and> POST_connect 3 st1 (jsonObject [(''fromUid'', lit ''beta''), (''toUid'', lit ''alpha'')])
         = (Inr (Json (ConversationJson c1)), st1)"
proof -
  have ne: "lit ''alpha'' \<noteq> lit ''beta''" "lit ''alpha'' \<noteq> []" "lit ''beta'' \<noteq> []"
    by (simp_all add: lit_def)
  show ?thesis
    using connect_symmetric_idempotent[of
        "\<lambda>k. case map_of [(''fromUid'', lit ''alpha''), (''toUid'', lit ''beta'')] k of
           None \<Rightarrow> JOther | Some s \<Rightarrow> JString s" "lit ''alpha''" "lit ''beta''"
        "\<lambda>k. case map_of [(''fromUid'', lit ''beta''), (''toUid'', lit ''alpha'')] k of
           None \<Rightarrow> JOther | Some s \<Rightarrow> JString s" registered alpha beta 1 2 3] ne
    apply (simp add: jsonObject_def users_registered)
    apply (elim exE conjE)
    subgoal for c1 st1 c2 st2
      by (intro exI[of _ c1] exI[of _ st1] exI[of _ c2] exI[of _ st2] conjI) simp_all
    done
qed


subsection \<open>Delivery, stream by stream\<close>

lemma length_deliverTo [simp]: "length (deliverTo c K ss) = length ss"
  by (simp add: deliverTo_def)

lemma nth_deliverTo:
  "j < length ss \<Longrightarrow> deliverTo c K ss ! j =
     (if j \<in> K \<and> \<not> closed (ss ! j) then (ss ! j)\<lparr>queue := queue (ss ! j) @ [c]\<rparr> else ss ! j)"
  by (simp add: deliverTo_def)

lemma deliverTo_empty [simp]: "deliverTo c {} ss = ss"
  by (rule nth_equalityI) (simp_all add: nth_deliverTo)

lemma deliverTo_twice:
  "A \<inter> B = {} \<Longrightarrow> deliverTo c B (deliverTo c A ss) = deliverTo c (A \<union> B) ss"
  by (rule nth_equalityI) (auto simp: nth_deliverTo)

lemma enqueue_deliverTo:
  "(case enqueue c k st of None \<Rightarrow> st | Some st' \<Rightarrow> st') = st\<lparr>streams := deliverTo c {k} (streams st)\<rparr>"
proof -
  have "(streams st)[k := (streams st ! k)\<lparr>queue := queue (streams st ! k) @ [c]\<rparr>]
          = deliverTo c {k} (streams st)"
    if "k < length (streams st)" "\<not> closed (streams st ! k)"
    using that by (intro nth_equalityI) (auto simp: nth_deliverTo nth_list_update)
  moreover have "deliverTo c {k} (streams st) = streams st"
    if "\<not> (k < length (streams st) \<and> \<not> closed (streams st ! k))"
    using that by (intro nth_equalityI) (auto simp: nth_deliverTo)
  ultimately show ?thesis
    by (auto simp: enqueue_def)
qed

lemma push_deliverTo: "push ev k st = st\<lparr>streams := deliverTo (Data ev) {k} (streams st)\<rparr>"
  by (simp add: push_def enqueue_deliverTo)

lemma fold_push_deliverTo:
  "distinct ks \<Longrightarrow> fold (push ev) ks st = st\<lparr>streams := deliverTo (Data ev) (set ks) (streams st)\<rparr>"
proof (induction ks arbitrary: st)
  case Nil
  then show ?case by simp
next
  case (Cons k ks)
  then have "{k} \<inter> set ks = {}" by simp
  then show ?case using Cons
    by (simp add: push_deliverTo deliverTo_twice)
qed

lemma publish_deliverTo:
  "distinct (subscribers st u) \<Longrightarrow>
     publish u ev st = st\<lparr>streams := deliverTo (Data ev) (set (subscribers st u)) (streams st)\<rparr>"
  by (simp add: publish_def fold_push_deliverTo)

lemma fold_publish_deliverTo:
  assumes "\<forall>u. distinct (subscribers st u)"
    and "\<forall>u v k. k \<in> set (subscribers st u) \<and> k \<in> set (subscribers st v) \<longrightarrow> u = v"
    and "distinct us"
  shows "fold (\<lambda>u. publish u ev) us st
           = st\<lparr>streams := deliverTo (Data ev) (audience st us) (streams st)\<rparr>"
  using assms
proof (induction us arbitrary: st)
  case Nil
  then show ?case by (simp add: audience_def)
next
  case (Cons u us)
  let ?st1 = "st\<lparr>streams := deliverTo (Data ev) (set (subscribers st u)) (streams st)\<rparr>"
  have p: "publish u ev st = ?st1" using Cons.prems(1) by (simp add: publish_deliverTo)
  have disj: "set (subscribers st u) \<inter> audience st us = {}"
    using Cons.prems(2,3) by (fastforce simp: audience_def)
  have aud: "audience ?st1 us = audience st us" by (simp add: audience_def)
  have "fold (\<lambda>u. publish u ev) us ?st1
          = ?st1\<lparr>streams := deliverTo (Data ev) (audience ?st1 us) (streams ?st1)\<rparr>"
    using Cons.prems by (intro Cons.IH) auto
  then show ?case using disj
    by (simp add: p aud deliverTo_twice audience_def)
qed

subsection \<open>Reading a queue\<close>

lemma snapshotsIn_simps [simp]:
  "snapshotsIn cid [] = []"
  "snapshotsIn cid (x # q) = snapshotOf cid x @ snapshotsIn cid q"
  "snapshotsIn cid (q @ r) = snapshotsIn cid q @ snapshotsIn cid r"
  by (simp_all add: snapshotsIn_def)

lemma messagesIn_simps [simp]:
  "messagesIn cid [] = []"
  "messagesIn cid (x # q) = messageOf cid x @ messagesIn cid q"
  "messagesIn cid (q @ r) = messagesIn cid q @ messagesIn cid r"
  by (simp_all add: messagesIn_def)

lemma messagesIn_snapshots [simp]:
  "messagesIn cid (map (\<lambda>c. Data (ConversationEvent c)) cs) = []"
  by (induction cs) auto

lemma snapshotsIn_snapshots:
  "cid \<notin> id_conv ` set cs \<Longrightarrow> snapshotsIn cid (map (\<lambda>c. Data (ConversationEvent c)) cs) = []"
  by (induction cs) auto

lemma deliveredOnce_messages:
  "messages c = messages c' \<Longrightarrow> deliveredOnce cid c q = deliveredOnce cid c' q"
  by (simp add: deliveredOnce_def)

lemma deliveredOnce_other:
  assumes "deliveredOnce cid c q" and "snapshotOf cid x = []" and "messageOf cid x = []"
  shows "deliveredOnce cid c (q @ [x])"
proof -
  obtain q1 c0 q2 where q: "q = q1 @ Data (ConversationEvent c0) # q2" "id_conv c0 = cid"
      "snapshotsIn cid q1 = []" "messagesIn cid q1 = []" "snapshotsIn cid q2 = []"
      "messages c = messages c0 @ messagesIn cid q2"
    using assms(1) by (auto simp: deliveredOnce_def)
  have "q @ [x] = q1 @ Data (ConversationEvent c0) # (q2 @ [x])" by (simp add: q(1))
  moreover have "snapshotsIn cid (q2 @ [x]) = []" using q(5) assms(2) by simp
  moreover have "messages c = messages c0 @ messagesIn cid (q2 @ [x])" using q(6) assms(3) by simp
  ultimately show ?thesis unfolding deliveredOnce_def using q(2,3,4) by blast
qed

lemma deliveredOnce_message:
  assumes "deliveredOnce cid c q" and "messages c' = messages c @ [m]"
  shows "deliveredOnce cid c' (q @ [Data (MessageEvent cid m)])"
proof -
  obtain q1 c0 q2 where q: "q = q1 @ Data (ConversationEvent c0) # q2" "id_conv c0 = cid"
      "snapshotsIn cid q1 = []" "messagesIn cid q1 = []" "snapshotsIn cid q2 = []"
      "messages c = messages c0 @ messagesIn cid q2"
    using assms(1) by (auto simp: deliveredOnce_def)
  let ?x = "Data (MessageEvent cid m)"
  have "q @ [?x] = q1 @ Data (ConversationEvent c0) # (q2 @ [?x])" by (simp add: q(1))
  moreover have "snapshotsIn cid (q2 @ [?x]) = []" using q(5) by simp
  moreover have "messages c' = messages c0 @ messagesIn cid (q2 @ [?x])"
    using q(6) assms(2) by simp
  ultimately show ?thesis unfolding deliveredOnce_def using q(2,3,4) by blast
qed

lemma deliveredOnce_first:
  assumes "snapshotsIn cid q = []" and "messagesIn cid q = []" and "id_conv c = cid"
  shows "deliveredOnce cid c (q @ [Data (ConversationEvent c)])"
  unfolding deliveredOnce_def
  using assms by (intro exI[of _ q] exI[of _ c] exI[of _ "[]"]) simp

lemma deliveredOnce_snapshot:
  assumes "c \<in> set cs" and "distinct (map id_conv cs)"
  shows "deliveredOnce (id_conv c) c (Data (Hello u) # map (\<lambda>c. Data (ConversationEvent c)) cs)"
proof -
  obtain l1 l2 where cs: "cs = l1 @ c # l2" using assms(1) by (auto dest: split_list)
  have n1: "id_conv c \<notin> id_conv ` set l1" and n2: "id_conv c \<notin> id_conv ` set l2"
    using assms(2) by (auto simp: cs)
  let ?f = "\<lambda>c. Data (ConversationEvent c)"
  have "Data (Hello u) # map ?f cs = (Data (Hello u) # map ?f l1) @ Data (ConversationEvent c) # map ?f l2"
    by (simp add: cs)
  moreover have "snapshotsIn (id_conv c) (Data (Hello u) # map ?f l1) = []"
    using n1 by (simp add: snapshotsIn_snapshots)
  moreover have "messagesIn (id_conv c) (Data (Hello u) # map ?f l1) = []" by simp
  moreover have "snapshotsIn (id_conv c) (map ?f l2) = []"
    using n2 by (simp add: snapshotsIn_snapshots)
  moreover have "messages c = messages c @ messagesIn (id_conv c) (map ?f l2)" by simp
  ultimately show ?thesis unfolding deliveredOnce_def by blast
qed

subsection \<open>Invariants under the primitive changes of the state\<close>

lemma consistent_users [simp]: "consistent (st\<lparr>users := us\<rparr>) = consistent st"
  by (simp add: consistent_def)

lemma synchronised_users [simp]: "synchronised (st\<lparr>users := us\<rparr>) = synchronised st"
  by (simp add: synchronised_def)

lemma consistent_deliverTo:
  assumes "consistent st"
    and "\<And>cid. cid \<notin> fst ` set (conversations st) \<Longrightarrow> snapshotOf cid c = [] \<and> messageOf cid c = []"
  shows "consistent (st\<lparr>streams := deliverTo c K (streams st)\<rparr>)"
  using assms unfolding consistent_def
  by (simp add: nth_deliverTo)

lemma synchronised_deliverTo:
  assumes "synchronised st" and "consistent st"
    and "\<And>cid. snapshotOf cid c = [] \<and> messageOf cid c = []"
  shows "synchronised (st\<lparr>streams := deliverTo c K (streams st)\<rparr>)"
  unfolding synchronised_def
proof (intro allI ballI impI)
  fix u k x
  assume k: "k \<in> set (subscribers (st\<lparr>streams := deliverTo c K (streams st)\<rparr>) u)"
    and x: "x \<in> set (conversations (st\<lparr>streams := deliverTo c K (streams st)\<rparr>))"
    and u: "u \<in> fst ` set (participants (snd x))"
  have kl: "k < length (streams st)" using k assms(2) by (auto simp: consistent_def)
  have d: "deliveredOnce (fst x) (snd x) (queue (streams st ! k))"
    using assms(1) k x u by (auto simp: synchronised_def)
  show "deliveredOnce (fst x) (snd x) (queue (streams (st\<lparr>streams := deliverTo c K (streams st)\<rparr>) ! k))"
    using d kl assms(3) by (simp add: nth_deliverTo deliveredOnce_other)
qed

lemma renameIn_simps [simp]:
  "id_conv (renameIn u n c) = id_conv c"
  "messages (renameIn u n c) = messages c"
  "updatedAt (renameIn u n c) = updatedAt c"
  "map fst (participants (renameIn u n c)) = map fst (participants c)"
  by (simp_all add: renameIn_def split_beta comp_def)

lemma renameIn_participants [simp]:
  "fst ` set (participants (renameIn u n c)) = fst ` set (participants c)"
proof -
  have "set (map fst (participants (renameIn u n c))) = set (map fst (participants c))"
    by (simp only: renameIn_simps(4))
  then show ?thesis by (simp only: set_map)
qed

lemma setName_simps [simp]:
  "subscribers (setName u n st) = subscribers st"
  "streams (setName u n st) = streams st"
  "map fst (conversations (setName u n st)) = map fst (conversations st)"
  "set (conversations (setName u n st)) = (\<lambda>x. (fst x, renameIn u n (snd x))) ` set (conversations st)"
  by (auto simp: setName_def split_beta)

lemma consistent_setName: "consistent st \<Longrightarrow> consistent (setName u n st)"
proof -
  assume c: "consistent st"
  have "fst ` set (conversations (setName u n st)) = fst ` set (conversations st)"
    by (simp add: image_image)
  then show ?thesis using c unfolding consistent_def
    by (simp del: setName_simps(4)) (simp add: setName_simps(4))
qed

lemma synchronised_setName: "synchronised st \<Longrightarrow> synchronised (setName u n st)"
  unfolding synchronised_def
  by (simp add: deliveredOnce_messages[of "renameIn u n c" c for c])

lemma subscribers_disjoint:
  "consistent st \<Longrightarrow> k \<in> set (subscribers st u) \<Longrightarrow> k \<in> set (subscribers st v) \<Longrightarrow> u = v"
  unfolding consistent_def by metis

lemma publish_consistent_eq:
  "consistent st \<Longrightarrow>
     publish u ev st = st\<lparr>streams := deliverTo (Data ev) (set (subscribers st u)) (streams st)\<rparr>"
  by (simp add: publish_deliverTo consistent_def)

subsubsection \<open>A new conversation\<close>

lemma created_state:
  assumes "consistent st" and "a \<noteq> b"
  shows "publish b ev (publish a ev (st\<lparr>conversations := cs\<rparr>))
           = st\<lparr>conversations := cs,
                streams := deliverTo (Data ev) (set (subscribers st a) \<union> set (subscribers st b))
                             (streams st)\<rparr>"
proof -
  have d: "distinct (subscribers st u)" for u using assms(1) by (simp add: consistent_def)
  have disj: "set (subscribers st a) \<inter> set (subscribers st b) = {}"
    using subscribers_disjoint[OF assms(1)] assms(2) by blast
  show ?thesis
    by (simp add: publish_deliverTo d deliverTo_twice[OF disj])
qed

lemma consistent_created:
  assumes "consistent st" and "key \<notin> fst ` set (conversations st)"
    and "id_conv c = key" and "distinct (map fst (participants c))"
  shows "consistent (st\<lparr>conversations := conversations st @ [(key, c)],
                        streams := deliverTo (Data (ConversationEvent c)) K (streams st)\<rparr>)"
  using assms unfolding consistent_def
  by (simp add: nth_deliverTo) 

lemma synchronised_created:
  assumes "synchronised st" and "consistent st" and "key \<notin> fst ` set (conversations st)"
    and "id_conv c = key" and "fst ` set (participants c) = {a, b}"
  shows "synchronised (st\<lparr>conversations := conversations st @ [(key, c)],
            streams := deliverTo (Data (ConversationEvent c))
                         (set (subscribers st a) \<union> set (subscribers st b)) (streams st)\<rparr>)"
  unfolding synchronised_def
proof (intro allI ballI impI)
  let ?K = "set (subscribers st a) \<union> set (subscribers st b)"
  let ?st' = "st\<lparr>conversations := conversations st @ [(key, c)],
                 streams := deliverTo (Data (ConversationEvent c)) ?K (streams st)\<rparr>"
  fix u k x
  assume k: "k \<in> set (subscribers ?st' u)"
    and x: "x \<in> set (conversations ?st')"
    and u: "u \<in> fst ` set (participants (snd x))"
  have k': "k \<in> set (subscribers st u)" using k by simp
  have kl: "k < length (streams st)" and op: "\<not> closed (streams st ! k)"
    using k' assms(2) by (auto simp: consistent_def)
  consider (old) "x \<in> set (conversations st)" | (new) "x = (key, c)" using x by auto
  then show "deliveredOnce (fst x) (snd x) (queue (streams ?st' ! k))"
  proof cases
    case old
    then have "fst x \<noteq> key" using assms(3) by auto
    then have n: "snapshotOf (fst x) (Data (ConversationEvent c)) = []"
      using assms(4) by simp
    have "deliveredOnce (fst x) (snd x) (queue (streams st ! k))"
      using assms(1) k' old u by (auto simp: synchronised_def)
    then show ?thesis using kl n by (simp add: nth_deliverTo deliveredOnce_other)
  next
    case new
    then have "u = a \<or> u = b" using u assms(5) by auto
    then have kK: "k \<in> ?K" using k' by auto
    have "snapshotsIn key (queue (streams st ! k)) = []" "messagesIn key (queue (streams st ! k)) = []"
      using assms(2,3) kl by (auto simp: consistent_def)
    then show ?thesis using new kl op kK assms(4)
      by (simp add: nth_deliverTo deliveredOnce_first)
  qed
qed

subsubsection \<open>A new message\<close>

lemma update_existing:
  "distinct (map fst al) \<Longrightarrow> k \<in> fst ` set al \<Longrightarrow>
     AList.update k v al = map (\<lambda>x. if fst x = k then (k, v) else x) al"
proof (induction al)
  case Nil
  then show ?case by simp
next
  case (Cons p ps)
  show ?case
  proof (cases "fst p = k")
    case True
    then have "k \<notin> fst ` set ps" using Cons.prems(1) by auto
    then have "map (\<lambda>x. if fst x = k then (k, v) else x) ps = ps"
      by (intro map_idI) auto
    then show ?thesis using True by simp
  next
    case False
    then have "k \<in> fst ` set ps" using Cons.prems(2) by auto
    then show ?thesis using False Cons by simp
  qed
qed

lemma appended_state:
  assumes "consistent st" and "distinct us"
  shows "fold (\<lambda>u. publish u ev) us (st\<lparr>conversations := cs\<rparr>)
           = st\<lparr>conversations := cs,
                streams := deliverTo (Data ev) (audience st us) (streams st)\<rparr>"
proof -
  let ?st = "st\<lparr>conversations := cs\<rparr>"
  have 1: "\<forall>u. distinct (subscribers ?st u)" using assms(1) by (simp add: consistent_def)
  have 2: "\<forall>u v k. k \<in> set (subscribers ?st u) \<and> k \<in> set (subscribers ?st v) \<longrightarrow> u = v"
    using subscribers_disjoint[OF assms(1)] by auto
  show ?thesis
    using fold_publish_deliverTo[OF 1 2 assms(2), of ev] by (simp add: audience_def)
qed

lemma consistent_appended:
  assumes "consistent st" and "map_of (conversations st) cid = Some c"
    and "id_conv c' = id_conv c" and "participants c' = participants c"
  shows "consistent (st\<lparr>conversations := AList.update cid c' (conversations st),
                        streams := deliverTo (Data (MessageEvent cid m)) K (streams st)\<rparr>)"
proof -
  have mem: "(cid, c) \<in> set (conversations st)" using assms(2) by (rule map_of_SomeD)
  then have dom: "cid \<in> fst ` set (conversations st)" by force
  have idc: "id_conv c = cid" using assms(1) mem by (auto simp: consistent_def)
  have dist: "distinct (map fst (conversations st))" using assms(1) by (simp add: consistent_def)
  note upd = update_existing[OF dist dom]
  have keys: "map fst (AList.update cid c' (conversations st)) = map fst (conversations st)"
    by (simp add: upd comp_def cong: map_cong)
  have keys': "fst ` set (AList.update cid c' (conversations st)) = fst ` set (conversations st)"
    using arg_cong[OF keys, of set] by (simp only: set_map)
  have each: "\<forall>x\<in>set (AList.update cid c' (conversations st)).
        id_conv (snd x) = fst x \<and> distinct (map fst (participants (snd x)))"
    using assms(1,3,4) mem idc unfolding consistent_def
    by (auto simp: upd)
  show ?thesis
    using assms(1) each dom unfolding consistent_def
    by (simp add: keys keys' nth_deliverTo)
qed

lemma synchronised_appended:
  assumes "synchronised st" and "consistent st" and "map_of (conversations st) cid = Some c"
    and "messages c' = messages c @ [m]" and "participants c' = participants c"
  shows "synchronised (st\<lparr>conversations := AList.update cid c' (conversations st),
            streams := deliverTo (Data (MessageEvent cid m))
                         (audience st (map fst (participants c))) (streams st)\<rparr>)"
  unfolding synchronised_def
proof (intro allI ballI impI)
  let ?K = "audience st (map fst (participants c))"
  let ?st' = "st\<lparr>conversations := AList.update cid c' (conversations st),
                 streams := deliverTo (Data (MessageEvent cid m)) ?K (streams st)\<rparr>"
  have mem: "(cid, c) \<in> set (conversations st)" using assms(3) by (rule map_of_SomeD)
  then have dom: "cid \<in> fst ` set (conversations st)" by force
  have dist: "distinct (map fst (conversations st))" using assms(2) by (simp add: consistent_def)
  fix u k x
  assume k: "k \<in> set (subscribers ?st' u)"
    and x: "x \<in> set (conversations ?st')"
    and u: "u \<in> fst ` set (participants (snd x))"
  have k': "k \<in> set (subscribers st u)" using k by simp
  have kl: "k < length (streams st)" and op: "\<not> closed (streams st ! k)"
    using k' assms(2) by (auto simp: consistent_def)
  have "x \<in> (\<lambda>y. if fst y = cid then (cid, c') else y) ` set (conversations st)"
    using x by (simp add: update_existing[OF dist dom])
  then obtain y where y: "y \<in> set (conversations st)"
    and xy: "x = (if fst y = cid then (cid, c') else y)"
    by blast
  show "deliveredOnce (fst x) (snd x) (queue (streams ?st' ! k))"
  proof (cases "fst y = cid")
    case True
    then have yc: "y = (cid, c)" using y mem dist by (metis eq_key_imp_eq_value prod.collapse)
    have x': "x = (cid, c')" using xy True by simp
    have "u \<in> fst ` set (participants c)" using u x' assms(5) by simp
    then have kK: "k \<in> ?K" using k' by (auto simp: audience_def)
    have "deliveredOnce cid c (queue (streams st ! k))"
      using assms(1) k' mem \<open>u \<in> fst ` set (participants c)\<close> by (force simp: synchronised_def)
    then show ?thesis using x' kl op kK assms(4)
      by (simp add: nth_deliverTo deliveredOnce_message)
  next
    case False
    then have x': "x = y" using xy by simp
    have "deliveredOnce (fst x) (snd x) (queue (streams st ! k))"
      using assms(1) k' y u x' by (auto simp: synchronised_def)
    moreover have "messageOf (fst x) (Data (MessageEvent cid m)) = []" using False x' by simp
    ultimately show ?thesis using kl by (simp add: nth_deliverTo deliveredOnce_other)
  qed
qed

subsubsection \<open>A new live feed\<close>

lemma enqueueAll_open:
  "k < length (streams st) \<Longrightarrow> \<not> closed (streams st ! k) \<Longrightarrow>
     enqueueAll cs k st
       = (True, st\<lparr>streams := (streams st)
                    [k := (streams st ! k)\<lparr>queue := queue (streams st ! k) @ cs\<rparr>]\<rparr>)"
proof (induction cs arbitrary: st)
  case Nil
  then show ?case by simp
next
  case (Cons c cs)
  let ?st1 = "st\<lparr>streams := (streams st)
                 [k := (streams st ! k)\<lparr>queue := queue (streams st ! k) @ [c]\<rparr>]\<rparr>"
  have e: "enqueue c k st = Some ?st1" using Cons.prems by (simp add: enqueue_def)
  have "enqueueAll cs k ?st1
          = (True, ?st1\<lparr>streams := (streams ?st1)
                    [k := (streams ?st1 ! k)\<lparr>queue := queue (streams ?st1 ! k) @ cs\<rparr>]\<rparr>)"
    using Cons.prems by (intro Cons.IH) simp_all
  then show ?case using Cons.prems by (simp add: e)
qed

lemma GET_events_opened:
  assumes "u \<noteq> []"
  shows "GET_events st (Some u) = (Inr (EventStream (length (streams st))), opened st u)"
proof -
  let ?k = "length (streams st)"
  let ?s0 = "\<lparr>owner = u, queue = [], closed = False, keepAlive = False, cleanupRef = True\<rparr>"
  let ?st1 = "subscribeToUser u ?k (st\<lparr>streams := streams st @ [?s0]\<rparr>)"
  let ?st2 = "?st1\<lparr>streams := (streams ?st1)
                 [?k := (streams ?st1 ! ?k)\<lparr>queue := queue (streams ?st1 ! ?k) @ [Data (Hello u)]\<rparr>]\<rparr>"
  have s1: "streams ?st1 = streams st @ [?s0]" by (simp add: subscribeToUser_def)
  have e: "enqueue (Data (Hello u)) ?k ?st1 = Some ?st2"
    by (simp add: enqueue_def s1)
  have s2: "streams ?st2 = streams st @ [?s0\<lparr>queue := [Data (Hello u)]\<rparr>]"
    by (simp add: s1)
  have l2: "listConversationsForUser ?st2 u = listConversationsForUser st u"
    by (simp add: listConversationsForUser_def subscribeToUser_def)
  have a: "enqueueAll cs ?k ?st2
     = (True, ?st2\<lparr>streams := (streams ?st2)
                    [?k := (streams ?st2 ! ?k)\<lparr>queue := queue (streams ?st2 ! ?k) @ cs\<rparr>]\<rparr>)" for cs
    by (rule enqueueAll_open) (simp_all add: s2)
  show ?thesis
    using assms
    apply (simp add: GET_events_def falsy_def Let_def e a l2 del: fun_upd_apply)
    apply (simp add: s2 opened_def subscribeToUser_def del: fun_upd_apply)
    done
qed

lemma consistent_opened:
  assumes "consistent st"
  shows "consistent (opened st u)"
proof -
  let ?k = "length (streams st)"
  have fresh: "?k \<notin> set (subscribers st v)" for v
    using assms by (auto simp: consistent_def)
  have sub: "subscribers (opened st u) = (subscribers st)(u := subscribers st u @ [?k])"
    by (simp add: opened_def fresh)
  have str: "streams (opened st u) = streams st @
          [\<lparr>owner = u,
            queue = Data (Hello u) #
                    map (\<lambda>c. Data (ConversationEvent c)) (listConversationsForUser st u),
            closed = False, keepAlive = True, cleanupRef = True\<rparr>]"
    by (simp add: opened_def)
  have cv: "conversations (opened st u) = conversations st" by (simp add: opened_def)
  have idk: "id_conv (snd x) = fst x" if "x \<in> set (conversations st)" for x
    using assms that unfolding consistent_def by blast
  have ids: "cid \<notin> id_conv ` set (listConversationsForUser st u)"
    if "cid \<notin> fst ` set (conversations st)" for cid
  proof
    assume "cid \<in> id_conv ` set (listConversationsForUser st u)"
    then obtain x where "x \<in> set (conversations st)" "id_conv (snd x) = cid"
      by (auto simp: listConversationsForUser_def)
    then show False using idk[of x] that by force
  qed
  have old: "k < length (streams st) \<and> owner (streams st ! k) = v
            \<and> \<not> closed (streams st ! k) \<and> cleanupRef (streams st ! k)"
    if "k \<in> set (subscribers st v)" for k v
    using assms that unfolding consistent_def by blast
  have c3: "distinct (subscribers (opened st u) v)" for v
  proof -
    have "distinct (subscribers st v)" using assms unfolding consistent_def by blast
    then show ?thesis using fresh[of v] by (auto simp: sub)
  qed
  have c4: "k < length (streams (opened st u)) \<and> owner (streams (opened st u) ! k) = v
            \<and> \<not> closed (streams (opened st u) ! k) \<and> cleanupRef (streams (opened st u) ! k)"
    if k: "k \<in> set (subscribers (opened st u) v)" for k v
  proof -
    consider (o) "k \<in> set (subscribers st v)" | (n) "k = ?k" "v = u"
      using k by (auto simp: sub split: if_splits)
    then show ?thesis
    proof cases
      case o
      then show ?thesis using old[OF o] by (simp add: str nth_append)
    next
      case n
      then show ?thesis by (simp add: str)
    qed
  qed
  have c5: "snapshotsIn cid (queue (streams (opened st u) ! k)) = []
            \<and> messagesIn cid (queue (streams (opened st u) ! k)) = []"
    if k: "k < length (streams (opened st u))" and cid: "cid \<notin> fst ` set (conversations (opened st u))"
    for k cid
  proof (cases "k < length (streams st)")
    case True
    have "snapshotsIn cid (queue (streams st ! k)) = [] \<and> messagesIn cid (queue (streams st ! k)) = []"
      using assms True cid unfolding consistent_def cv by blast
    then show ?thesis using True by (simp add: str nth_append)
  next
    case False
    then have "k = ?k" using k by (simp add: str)
    then show ?thesis using ids[of cid] cid by (simp add: str cv snapshotsIn_snapshots)
  qed
  have c1: "distinct (map fst (conversations st))"
    and c2: "\<forall>x\<in>set (conversations st). id_conv (snd x) = fst x
            \<and> distinct (map fst (participants (snd x)))"
    using assms unfolding consistent_def by blast+
  show ?thesis
    unfolding consistent_def cv using c1 c2 c3 c4 c5[unfolded cv] by blast
qed

lemma synchronised_opened:
  assumes "synchronised st" and "consistent st"
  shows "synchronised (opened st u)"
  unfolding synchronised_def
proof (intro allI ballI impI)
  let ?k = "length (streams st)"
  let ?q = "Data (Hello u) # map (\<lambda>c. Data (ConversationEvent c)) (listConversationsForUser st u)"
  have fresh: "?k \<notin> set (subscribers st v)" for v
    using assms(2) by (auto simp: consistent_def)
  have sub: "subscribers (opened st u) = (subscribers st)(u := subscribers st u @ [?k])"
    by (simp add: opened_def fresh)
  fix v k x
  assume k: "k \<in> set (subscribers (opened st u) v)"
    and x: "x \<in> set (conversations (opened st u))"
    and v: "v \<in> fst ` set (participants (snd x))"
  have x': "x \<in> set (conversations st)" using x by (simp add: opened_def)
  consider (old) "k \<in> set (subscribers st v)" | (new) "k = ?k" "v = u"
    using k by (auto simp: sub split: if_splits)
  then show "deliveredOnce (fst x) (snd x) (queue (streams (opened st u) ! k))"
  proof cases
    case old
    then have "k < length (streams st)" using assms(2) by (auto simp: consistent_def)
    then have "queue (streams (opened st u) ! k) = queue (streams st ! k)"
      by (simp add: opened_def nth_append)
    then show ?thesis using assms(1) old x' v by (auto simp: synchronised_def)
  next
    case new
    have q: "queue (streams (opened st u) ! k) = ?q" by (simp add: new opened_def)
    have mem: "snd x \<in> set (listConversationsForUser st u)"
      using x' v new by (auto simp: listConversationsForUser_def)
    have eq: "map id_conv (map snd (conversations st)) = map fst (conversations st)"
      using assms(2) by (auto simp: consistent_def)
    have df: "distinct (map fst (conversations st))"
      using assms(2) by (simp add: consistent_def)
    have "distinct (map id_conv (map snd (conversations st)))"
      unfolding eq by (rule df)
    then have "distinct (map id_conv (listConversationsForUser st u))"
      unfolding listConversationsForUser_def by (rule distinct_map_filter)
    then have "deliveredOnce (id_conv (snd x)) (snd x) ?q"
      using mem by (intro deliveredOnce_snapshot)
    moreover have "id_conv (snd x) = fst x" using assms(2) x' by (auto simp: consistent_def)
    ultimately show ?thesis by (simp add: q)
  qed
qed

subsubsection \<open>The end of a live feed\<close>

lemma consistent_flags:
  assumes "consistent st" and "k < length (streams st)"
    and "queue s = queue (streams st ! k)" and "owner s = owner (streams st ! k)"
    and "\<And>u. set (subs u) \<subseteq> set (subscribers st u) \<and> distinct (subs u)"
    and "\<And>u. k \<notin> set (subs u)"
  shows "consistent (st\<lparr>subscribers := subs, streams := (streams st)[k := s]\<rparr>)"
proof -
  have q: "queue ((streams st)[k := s] ! j) = queue (streams st ! j)" for j
    using assms(2,3) by (cases "j = k") simp_all
  have c4: "\<forall>u. \<forall>j\<in>set (subs u).
            j < length (streams st) \<and> owner ((streams st)[k := s] ! j) = u
            \<and> \<not> closed ((streams st)[k := s] ! j) \<and> cleanupRef ((streams st)[k := s] ! j)"
  proof (intro allI ballI)
    fix u j assume j: "j \<in> set (subs u)"
    then have "j \<noteq> k" using assms(6) by auto
    moreover have "j \<in> set (subscribers st u)" using j assms(5) by auto
    ultimately show "j < length (streams st) \<and> owner ((streams st)[k := s] ! j) = u
            \<and> \<not> closed ((streams st)[k := s] ! j) \<and> cleanupRef ((streams st)[k := s] ! j)"
      using assms(1) by (auto simp: consistent_def)
  qed
  show ?thesis
    using assms(1,5) c4 unfolding consistent_def by (simp add: q)
qed

lemma synchronised_flags:
  assumes "synchronised st" and "k < length (streams st)"
    and "queue s = queue (streams st ! k)"
    and "\<And>u. set (subs u) \<subseteq> set (subscribers st u)"
  shows "synchronised (st\<lparr>subscribers := subs, streams := (streams st)[k := s]\<rparr>)"
proof -
  have q: "queue ((streams st)[k := s] ! j) = queue (streams st ! j)" for j
    using assms(2,3) by (cases "j = k") simp_all
  show ?thesis
    using assms(1,4) unfolding synchronised_def by (simp add: q) blast
qed

subsection \<open>Every turn keeps the invariants\<close>

lemma cleanup_eq:
  "cleanup k st =
     st\<lparr>subscribers := (subscribers st)
          (owner (streams st ! k) := removeAll k (subscribers st (owner (streams st ! k)))),
        streams := (streams st)
          [k := (streams st ! k)\<lparr>closed := True, keepAlive := False, cleanupRef := False\<rparr>]\<rparr>"
  by (simp add: cleanup_def unsubscribeFromUser_def Let_def)

lemma inv_cleanup:
  assumes "consistent st" and "synchronised st" and "k < length (streams st)"
  shows "consistent (cleanup k st) \<and> synchronised (cleanup k st)"
proof -
  let ?o = "owner (streams st ! k)"
  let ?subs = "(subscribers st)(?o := removeAll k (subscribers st ?o))"
  have sub: "set (?subs u) \<subseteq> set (subscribers st u) \<and> distinct (?subs u)" for u
    using assms(1) by (auto simp: consistent_def distinct_removeAll)
  have gone: "k \<notin> set (?subs u)" for u
  proof (cases "u = ?o")
    case True
    then show ?thesis by simp
  next
    case False
    then show ?thesis using assms(1) unfolding consistent_def by auto
  qed
  let ?s = "(streams st ! k)\<lparr>closed := True, keepAlive := False, cleanupRef := False\<rparr>"
  have 1: "consistent (st\<lparr>subscribers := ?subs, streams := (streams st)[k := ?s]\<rparr>)"
    by (rule consistent_flags[OF assms(1,3) _ _ sub gone]) simp_all
  have 2: "synchronised (st\<lparr>subscribers := ?subs, streams := (streams st)[k := ?s]\<rparr>)"
  proof (rule synchronised_flags[OF assms(2,3)])
    show "queue ?s = queue (streams st ! k)" by simp
    show "set (?subs u) \<subseteq> set (subscribers st u)" for u using sub[of u] by blast
  qed
  show ?thesis unfolding cleanup_eq using 1 2 by (rule conjI)
qed

lemma inv_abort:
  "consistent st \<Longrightarrow> synchronised st \<Longrightarrow> consistent (abort k st) \<and> synchronised (abort k st)"
  by (simp add: abort_def inv_cleanup)

lemma cancel_eq:
  assumes "k < length (streams st)"
  shows "cancel k st =
     (if cleanupRef (streams st ! k) then cleanup k st
      else st\<lparr>subscribers := subscribers st,
              streams := (streams st)[k := (streams st ! k)\<lparr>closed := True, cleanupRef := False\<rparr>]\<rparr>)"
  using assms by (simp add: cancel_def cleanup_eq Let_def)

lemma inv_cancel:
  assumes "consistent st" and "synchronised st"
  shows "consistent (cancel k st) \<and> synchronised (cancel k st)"
proof (cases "k < length (streams st)")
  case False
  then show ?thesis using assms by (simp add: cancel_def)
next
  case True
  show ?thesis
  proof (cases "cleanupRef (streams st ! k)")
    case c: True
    then show ?thesis using inv_cleanup[OF assms True] by (simp add: cancel_eq[OF True])
  next
    case c: False
    have sub: "set (subscribers st u) \<subseteq> set (subscribers st u) \<and> distinct (subscribers st u)" for u
      using assms(1) by (simp add: consistent_def)
    have gone: "k \<notin> set (subscribers st u)" for u
      using assms(1) c unfolding consistent_def by auto
    let ?s = "(streams st ! k)\<lparr>closed := True, cleanupRef := False\<rparr>"
    have 1: "consistent (st\<lparr>subscribers := subscribers st, streams := (streams st)[k := ?s]\<rparr>)"
      by (rule consistent_flags[OF assms(1) True _ _ sub gone]) simp_all
    have 2: "synchronised (st\<lparr>subscribers := subscribers st, streams := (streams st)[k := ?s]\<rparr>)"
      by (rule synchronised_flags[OF assms(2) True]) simp_all
    have "cancel k st = st\<lparr>subscribers := subscribers st, streams := (streams st)[k := ?s]\<rparr>"
      using c by (simp only: cancel_eq[OF True] if_False)
    then show ?thesis using 1 2 by (simp only:) 
  qed
qed

lemma inv_keepAliveTick:
  assumes "consistent st" and "synchronised st"
  shows "consistent (keepAliveTick k st) \<and> synchronised (keepAliveTick k st)"
  using assms
  by (simp add: keepAliveTick_def enqueue_deliverTo consistent_deliverTo synchronised_deliverTo)

lemma inv_saveUser:
  assumes "consistent st" and "synchronised st" and "saveUser st u n = (p, st')"
  shows "consistent st' \<and> synchronised st'"
  using assms
  by (auto simp: saveUser_def consistent_setName synchronised_setName
      split: option.splits if_splits)

lemma inv_POST_user:
  assumes "consistent st" and "synchronised st"
  shows "consistent (snd (POST_user st b)) \<and> synchronised (snd (POST_user st b))"
  using assms inv_saveUser[OF assms]
  by (auto simp: POST_user_def split: body.splits option.splits prod.splits)

lemma inv_renameParticipant:
  assumes "consistent st" and "synchronised st"
    and "renameParticipant st u n = Inr (p, st')"
  shows "consistent st' \<and> synchronised st'"
proof -
  have c: "consistent (setName u n st)" and s: "synchronised (setName u n st)"
    using assms(1,2) by (simp_all add: consistent_setName synchronised_setName)
  let ?st1 = "setName u n st"
  have "st' = publish u (UserEvent u n) ?st1"
    using assms(3) by (auto simp: renameParticipant_def split: option.splits)
  then have e: "st' = ?st1\<lparr>streams := deliverTo (Data (UserEvent u n))
                         (set (subscribers ?st1 u)) (streams ?st1)\<rparr>"
    by (simp only: publish_consistent_eq[OF c])
  have 1: "consistent st'" unfolding e by (rule consistent_deliverTo[OF c]) simp
  have 2: "synchronised st'" unfolding e by (rule synchronised_deliverTo[OF s c]) simp
  show ?thesis using 1 2 by (rule conjI)
qed

lemma inv_PUT_user:
  assumes "consistent st" and "synchronised st"
  shows "consistent (snd (PUT_user st b)) \<and> synchronised (snd (PUT_user st b))"
  using assms inv_renameParticipant[OF assms]
  by (auto simp: PUT_user_def split: body.splits option.splits sum.splits prod.splits)

lemma inv_ensureConversation:
  assumes "consistent st" and "synchronised st"
    and "ensureConversation now st a b = Inr (c, st')"
  shows "consistent st' \<and> synchronised st'"
proof (cases "map_of (conversations st) (conversationKey a b)")
  case (Some c')
  then have "st' = st" using assms(3)
    by (auto simp: ensureConversation_def split: if_splits option.splits)
  then show ?thesis using assms by simp
next
  case None
  from assms(3) obtain pa pb where ab: "a \<noteq> b" and pa: "users st a = Some pa"
    and pb: "users st b = Some pb"
    by (auto simp: ensureConversation_def split: if_splits option.splits)
  define key where "key = conversationKey a b"
  define cn where "cn = \<lparr>id_conv = key, participants = [(a, pa), (b, pb)],
                         messages = [], updatedAt = now\<rparr>"
  have "ensureConversation now st a b
          = Inr (cn, st\<lparr>conversations := conversations st @ [(key, cn)],
                streams := deliverTo (Data (ConversationEvent cn))
                             (set (subscribers st a) \<union> set (subscribers st b)) (streams st)\<rparr>)"
    using None ab pa pb
    by (simp add: ensureConversation_def Let_def key_def cn_def created_state[OF assms(1) ab])
  then have st': "st' = st\<lparr>conversations := conversations st @ [(key, cn)],
                streams := deliverTo (Data (ConversationEvent cn))
                             (set (subscribers st a) \<union> set (subscribers st b)) (streams st)\<rparr>"
    using assms(3) by simp
  have fresh: "key \<notin> fst ` set (conversations st)"
    using None by (simp add: key_def map_of_eq_None_iff)
  have 1: "consistent st'"
    unfolding st' by (rule consistent_created[OF assms(1) fresh]) (simp_all add: cn_def ab)
  have 2: "synchronised st'"
    unfolding st' by (rule synchronised_created[OF assms(2,1) fresh]) (simp_all add: cn_def)
  show ?thesis using 1 2 by simp
qed

lemma inv_POST_connect:
  assumes "consistent st" and "synchronised st"
  shows "consistent (snd (POST_connect now st b)) \<and> synchronised (snd (POST_connect now st b))"
  using assms inv_ensureConversation[OF assms]
  by (auto simp: POST_connect_def Let_def split: body.splits sum.splits prod.splits)

lemma inv_appendMessage:
  assumes "consistent st" and "synchronised st"
    and "appendMessage now mid st cid p txt = Inr (m, st')"
  shows "consistent st' \<and> synchronised st'"
proof -
  from assms(3) obtain c where c: "map_of (conversations st) cid = Some c"
    and ok: "trim txt \<noteq> []" "uid p \<in> fst ` set (participants c)"
    by (auto simp: appendMessage_def split: option.splits if_splits)
  define c' where "c' = c\<lparr>messages := messages c @ [m], updatedAt := max now (updatedAt c)\<rparr>"
  have mem: "(cid, c) \<in> set (conversations st)" using c by (rule map_of_SomeD)
  have dp: "distinct (map fst (participants c))"
    using assms(1) mem unfolding consistent_def by force
  have st': "st' = st\<lparr>conversations := AList.update cid c' (conversations st),
                streams := deliverTo (Data (MessageEvent cid m))
                             (audience st (map fst (participants c))) (streams st)\<rparr>"
    using assms(3) c ok appended_state[OF assms(1) dp]
    by (auto simp: appendMessage_def Let_def c'_def)
  have 1: "consistent st'"
    unfolding st' by (rule consistent_appended[OF assms(1) c]) (simp_all add: c'_def)
  have 2: "synchronised st'"
    unfolding st' by (rule synchronised_appended[OF assms(2,1) c]) (simp_all add: c'_def)
  show ?thesis using 1 2 by simp
qed

lemma inv_POST_message:
  assumes "consistent st" and "synchronised st"
  shows "consistent (snd (POST_message now mid st b))
       \<and> synchronised (snd (POST_message now mid st b))"
  using assms inv_appendMessage[OF assms]
  by (auto simp: POST_message_def Let_def split: body.splits option.splits sum.splits prod.splits)

lemma inv_GET_events:
  assumes "consistent st" and "synchronised st"
  shows "consistent (snd (GET_events st u)) \<and> synchronised (snd (GET_events st u))"
proof (cases "falsy u")
  case True
  then show ?thesis using assms by (simp add: GET_events_def)
next
  case False
  then obtain v where "u = Some v" "v \<noteq> []" by (auto simp: falsy_def split: option.splits)
  then show ?thesis
    using assms by (simp add: GET_events_opened consistent_opened synchronised_opened)
qed

lemma inv_step:
  assumes "consistent st" and "synchronised st"
  shows "consistent (step a st) \<and> synchronised (step a st)"
  using assms
  by (cases a)
     (simp_all add: inv_POST_user inv_PUT_user inv_POST_connect inv_POST_message
        inv_GET_events inv_abort inv_cancel inv_keepAliveTick)

lemma inv_run:
  "consistent st \<Longrightarrow> synchronised st \<Longrightarrow> consistent (run acts st) \<and> synchronised (run acts st)"
  unfolding run_def
  by (induction acts arbitrary: st) (simp_all add: inv_step)

lemma inv_init: "consistent init" "synchronised init"
  by (simp_all add: consistent_def synchronised_def init_def)

subsection \<open>Queues only grow\<close>

lemma extends_refl [simp]: "extends ss ss"
  by (simp add: extends_def)

lemma extends_trans: "extends a b \<Longrightarrow> extends b c \<Longrightarrow> extends a c"
  unfolding extends_def by (meson le_trans less_le_trans prefix_order.trans)

lemma extends_deliverTo [simp]: "extends ss (deliverTo c K ss)"
  by (simp add: extends_def nth_deliverTo)

lemma extends_snoc [simp]: "extends ss (ss @ [s])"
  by (simp add: extends_def nth_append)

lemma extends_flags: "k < length ss \<Longrightarrow> queue s = queue (ss ! k) \<Longrightarrow> extends ss (ss[k := s])"
  by (simp add: extends_def nth_list_update)

lemma extends_push: "extends (streams st) (streams (push ev k st))"
  by (simp add: push_deliverTo)

lemma extends_fold_push: "extends (streams st) (streams (fold (push ev) ks st))"
proof (induction ks arbitrary: st)
  case Nil
  then show ?case by simp
next
  case (Cons k ks)
  show ?case using extends_trans[OF extends_push Cons.IH] by simp
qed

lemma extends_publish: "extends (streams st) (streams (publish u ev st))"
  by (simp add: publish_def extends_fold_push)

lemma extends_fold_publish: "extends (streams st) (streams (fold (\<lambda>u. publish u ev) us st))"
proof (induction us arbitrary: st)
  case Nil
  then show ?case by simp
next
  case (Cons u us)
  show ?case using extends_trans[OF extends_publish Cons.IH] by simp
qed

lemma extends_saveUser: "saveUser st u n = (p, st') \<Longrightarrow> extends (streams st) (streams st')"
  by (auto simp: saveUser_def split: option.splits if_splits)

lemma extends_POST_user: "extends (streams st) (streams (snd (POST_user st b)))"
  using extends_saveUser
  by (auto simp: POST_user_def split: body.splits option.splits prod.splits)

lemma extends_PUT_user: "extends (streams st) (streams (snd (PUT_user st b)))"
proof -
  have "extends (streams st) (streams (publish u ev (setName u n st)))" for u ev n
    using extends_publish[of "setName u n st" u ev] by simp
  then show ?thesis
    by (auto simp: PUT_user_def renameParticipant_def
        split: body.splits option.splits sum.splits prod.splits)
qed

lemma extends_ensureConversation:
  "ensureConversation now st a b = Inr (c, st') \<Longrightarrow> extends (streams st) (streams st')"
proof -
  have "extends (streams st) (streams (publish b ev (publish a ev (st\<lparr>conversations := cs\<rparr>))))"
    for ev cs
    using extends_trans[OF extends_publish[of "st\<lparr>conversations := cs\<rparr>" a ev]
        extends_publish[of "publish a ev (st\<lparr>conversations := cs\<rparr>)" b ev]]
    by simp
  then show "ensureConversation now st a b = Inr (c, st') \<Longrightarrow> extends (streams st) (streams st')"
    by (auto simp: ensureConversation_def Let_def split: if_splits option.splits)
qed

lemma extends_POST_connect: "extends (streams st) (streams (snd (POST_connect now st b)))"
  using extends_ensureConversation
  by (auto simp: POST_connect_def Let_def split: body.splits sum.splits prod.splits)

lemma extends_appendMessage:
  "appendMessage now mid st cid p txt = Inr (m, st') \<Longrightarrow> extends (streams st) (streams st')"
proof -
  have "extends (streams st) (streams (fold (\<lambda>u. publish u ev) us (st\<lparr>conversations := cs\<rparr>)))"
    for ev us cs
    using extends_fold_publish[of "st\<lparr>conversations := cs\<rparr>" ev us] by simp
  then show "appendMessage now mid st cid p txt = Inr (m, st') \<Longrightarrow> extends (streams st) (streams st')"
    by (auto simp: appendMessage_def Let_def split: if_splits option.splits)
qed

lemma extends_POST_message: "extends (streams st) (streams (snd (POST_message now mid st b)))"
  using extends_appendMessage
  by (auto simp: POST_message_def Let_def split: body.splits option.splits sum.splits prod.splits)

lemma extends_GET_events: "extends (streams st) (streams (snd (GET_events st u)))"
proof (cases "falsy u")
  case True
  then show ?thesis by (simp add: GET_events_def)
next
  case False
  then obtain v where "u = Some v" "v \<noteq> []" by (auto simp: falsy_def split: option.splits)
  then show ?thesis by (simp add: GET_events_opened opened_def)
qed

lemma extends_cleanup: "k < length (streams st) \<Longrightarrow> extends (streams st) (streams (cleanup k st))"
  by (simp add: cleanup_eq extends_flags)

lemma extends_cancel: "extends (streams st) (streams (cancel k st))"
proof (cases "k < length (streams st)")
  case True
  then show ?thesis by (simp add: cancel_eq extends_cleanup extends_flags)
next
  case False
  then show ?thesis by (simp add: cancel_def)
qed

lemma extends_keepAliveTick: "extends (streams st) (streams (keepAliveTick k st))"
  by (simp add: keepAliveTick_def enqueue_deliverTo)

lemma extends_step: "extends (streams st) (streams (step a st))"
  by (cases a)
     (simp_all add: extends_POST_user extends_PUT_user extends_POST_connect extends_POST_message
        extends_GET_events abort_def extends_cleanup extends_cancel extends_keepAliveTick)

lemma extends_run: "extends (streams st) (streams (run acts st))"
  unfolding run_def
proof (induction acts arbitrary: st)
  case Nil
  then show ?case by simp
next
  case (Cons a acts)
  show ?case using extends_trans[OF extends_step Cons.IH] by simp
qed

subsection \<open>Opening a live feed\<close>

text \<open>
  C4. A live feed opened for an identity (a non-empty \<open>uid\<close>) gets a new stream whose
  queue holds first one "hello" event and then one "conversation" event for each stored
  conversation the identity participates in, in the order of the store, and nothing else;
  whatever turns follow, that queue stays a prefix of the stream's queue, so every later
  event comes after the snapshot.
\<close>

theorem openLiveFeed_snapshot:
  assumes "u \<noteq> []"
  shows "\<exists>st'. GET_events st (Some u) = (Inr (EventStream (length (streams st))), st')
           \<and> queue (streams st' ! length (streams st))
               = Data (Hello u) #
                 map (\<lambda>c. Data (ConversationEvent c))
                   (filter (\<lambda>c. u \<in> fst ` set (participants c)) (map snd (conversations st)))
           \<and> (\<forall>acts. prefix (queue (streams st' ! length (streams st)))
                              (queue (streams (run acts st') ! length (streams st))))"
proof -
  let ?st' = "opened st u"
  have g: "GET_events st (Some u) = (Inr (EventStream (length (streams st))), ?st')"
    by (rule GET_events_opened[OF assms])
  have q: "queue (streams ?st' ! length (streams st))
               = Data (Hello u) #
                 map (\<lambda>c. Data (ConversationEvent c))
                   (filter (\<lambda>c. u \<in> fst ` set (participants c)) (map snd (conversations st)))"
    by (simp add: opened_def listConversationsForUser_def)
  have l: "length (streams st) < length (streams ?st')" by (simp add: opened_def)
  have "prefix (queue (streams ?st' ! length (streams st)))
                (queue (streams (run acts ?st') ! length (streams st)))" for acts
    using extends_run[of ?st' acts] l unfolding extends_def by blast
  then show ?thesis using g q by blast
qed

lemma names_distinct:
  "lit ''alpha'' \<noteq> lit ''beta''" "lit ''beta'' \<noteq> lit ''alpha''"
  "lit ''alpha'' \<noteq> []" "lit ''beta'' \<noteq> []"
  by (simp_all add: lit_def)

lemma sanitizeName_scenario:
  "sanitizeName (JString (lit ''Alpha'')) = lit ''Alpha''"
  "sanitizeName (JString (lit ''Beta'')) = lit ''Beta''"
  by (simp_all add: sanitizeName_def Let_def slice_str_def lit_def trim_def isWhite_def)

lemma run_connected:
  "run [PostUser (jsonObject [(''uid'', lit ''alpha''), (''name'', lit ''Alpha'')]),
        PostUser (jsonObject [(''uid'', lit ''beta''), (''name'', lit ''Beta'')]),
        PostConnect 1 (jsonObject [(''fromUid'', lit ''alpha''), (''toUid'', lit ''beta'')])] init
     = connected"
proof -
  have s1: "snd (POST_user init (jsonObject [(''uid'', lit ''alpha''), (''name'', lit ''Alpha'')]))
              = init\<lparr>users := [lit ''alpha'' \<mapsto> alpha]\<rparr>"
    by (simp add: POST_user_def jsonObject_def typeofString_def sanitizeName_scenario saveUser_def
        names_distinct alpha_def) (simp add: init_def)
  have s2: "snd (POST_user (init\<lparr>users := [lit ''alpha'' \<mapsto> alpha]\<rparr>)
                   (jsonObject [(''uid'', lit ''beta''), (''name'', lit ''Beta'')])) = registered"
    by (simp add: POST_user_def jsonObject_def typeofString_def sanitizeName_scenario saveUser_def
        names_distinct beta_def registered_def)
  have k: "lit ''alpha'' \<le> lit ''beta''" by (simp add: lit_def)
  have s3: "snd (POST_connect 1 registered
                   (jsonObject [(''fromUid'', lit ''alpha''), (''toUid'', lit ''beta'')])) = connected"
    by (simp add: POST_connect_def jsonObject_def typeofString_def falsy_def names_distinct
        ensureConversation_def users_registered Let_def connected_def channel_def)
       (simp add: registered_def init_def publish_def Let_def)
  show ?thesis by (simp add: run_def s1 s2 s3)
qed

theorem openLiveFeed_snapshot_witness:
  "\<exists>st'. GET_events connected (Some (lit ''beta'')) = (Inr (EventStream 0), st')
         \<and> queue (streams st' ! 0) = [Data (Hello (lit ''beta'')), Data (ConversationEvent channel)]
         \<and> (\<forall>acts. prefix (queue (streams st' ! 0)) (queue (streams (run acts st') ! 0)))"
proof -
  have ne: "lit ''beta'' \<noteq> []" by (simp add: lit_def)
  have s: "streams connected = []" "conversations connected = [(id_conv channel, channel)]"
    by (simp_all add: connected_def registered_def init_def)
  have p: "lit ''beta'' \<in> fst ` set (participants channel)" by (simp add: channel_def)
  show ?thesis
    using openLiveFeed_snapshot[OF ne, of connected] by (simp add: s p)
qed

subsection \<open>The scenario, turn by turn\<close>

lemma run_append: "run (xs @ ys) st = run ys (run xs st)"
  by (simp add: run_def)

lemma trim_hi: "trim (lit ''hi'') = lit ''hi''"
  by (simp add: trim_def lit_def isWhite_def)

lemma opened_connected:
  "opened connected (lit ''beta'')
     = connected\<lparr>subscribers := (\<lambda>u. [])(lit ''beta'' := [0]),
               streams := [\<lparr>owner = lit ''beta'',
                            queue = [Data (Hello (lit ''beta'')), Data (ConversationEvent channel)],
                            closed = False, keepAlive = True, cleanupRef = True\<rparr>]\<rparr>"
  by (simp add: opened_def connected_def registered_def init_def listConversationsForUser_def
      channel_def)

lemma run_opened:
  "run [PostUser (jsonObject [(''uid'', lit ''alpha''), (''name'', lit ''Alpha'')]),
        PostUser (jsonObject [(''uid'', lit ''beta''), (''name'', lit ''Beta'')]),
        PostConnect 1 (jsonObject [(''fromUid'', lit ''alpha''), (''toUid'', lit ''beta'')]),
        GetEvents (Some (lit ''beta''))] init
     = opened connected (lit ''beta'')"
proof -
  have "run ([PostUser (jsonObject [(''uid'', lit ''alpha''), (''name'', lit ''Alpha'')]),
        PostUser (jsonObject [(''uid'', lit ''beta''), (''name'', lit ''Beta'')]),
        PostConnect 1 (jsonObject [(''fromUid'', lit ''alpha''), (''toUid'', lit ''beta'')])]
        @ [GetEvents (Some (lit ''beta''))]) init = opened connected (lit ''beta'')"
    unfolding run_append run_connected
    by (simp add: run_def GET_events_opened names_distinct)
  then show ?thesis by simp
qed

lemma post_hi:
  "POST_message 5 (lit ''m1'') (opened connected (lit ''beta''))
     (jsonObject [(''conversationId'', id_conv channel), (''fromUid'', lit ''alpha''),
                  (''text'', lit ''hi'')])
     = (Inr (Json (MessageJson hi)), talking)"
proof -
  have idne: "id_conv channel \<noteq> []" by (simp add: channel_def conversationKey_def lit_def)
  have hine: "lit ''hi'' \<noteq> []" by (simp add: lit_def)
  have tk: "take 2000 (lit ''hi'') = lit ''hi''" by (simp add: lit_def)
  show ?thesis
    unfolding opened_connected
    apply (simp add: POST_message_def jsonObject_def typeofString_def falsy_def Let_def trim_hi
        idne hine names_distinct getUser_def users_connected slice_str_def)
    apply (simp add: appendMessage_def connected_def trim_hi hine tk Let_def)
    apply (simp add: channel_def alpha_def publish_def push_def enqueue_def names_distinct
        talking_def hi_def connected_def registered_def init_def tk)
    done
qed

subsection \<open>The order of the log\<close>

lemma ordered_renameIn [simp]: "ordered (renameIn u n c) = ordered c"
  by (simp add: ordered_def)

lemma ordered_appended:
  assumes "ordered c" and "timestamp m = max now (updatedAt c)"
  shows "ordered (c\<lparr>messages := messages c @ [m], updatedAt := max now (updatedAt c)\<rparr>)"
  using assms by (auto simp: ordered_def sorted_append)

lemma set_update:
  "x \<in> set (AList.update k v al) \<Longrightarrow> x = (k, v) \<or> x \<in> set al"
  by (induction al) (auto split: if_splits)

lemma appendMessage_Inr:
  assumes "appendMessage now mid st cid p txt = Inr (m, st')"
  shows "\<exists>c. map_of (conversations st) cid = Some c
            \<and> timestamp m = max now (updatedAt c)
            \<and> conversations st' = AList.update cid
                 (c\<lparr>messages := messages c @ [m], updatedAt := max now (updatedAt c)\<rparr>)
                 (conversations st)"
  using assms by (auto simp: appendMessage_def Let_def split: option.splits if_splits)

lemma POST_message_Inr:
  assumes "POST_message now mid st (JObject f) = (Inr (Json (MessageJson m)), st')"
    and "f ''conversationId'' = JString cid"
  shows "\<exists>p txt. appendMessage now mid st cid p txt = Inr (m, st')"
  using assms
  by (auto simp: POST_message_def Let_def typeofString_def
      split: option.splits sum.splits if_splits prod.splits)

lemma ordered_setName:
  "\<forall>x\<in>set (conversations st). ordered (snd x) \<Longrightarrow>
     \<forall>x\<in>set (conversations (setName u n st)). ordered (snd x)"
  by simp

lemma ordered_saveUser:
  assumes "\<forall>x\<in>set (conversations st). ordered (snd x)" and "saveUser st u n = (p, st')"
  shows "\<forall>x\<in>set (conversations st'). ordered (snd x)"
proof -
  have "st' = st\<lparr>users := (users st)(u \<mapsto> \<lparr>uid = u, name = n\<rparr>)\<rparr> \<or> st' = setName u n st \<or> st' = st"
    using assms(2) by (auto simp: saveUser_def split: option.splits if_splits)
  then show ?thesis
  proof (elim disjE)
    assume "st' = st\<lparr>users := (users st)(u \<mapsto> \<lparr>uid = u, name = n\<rparr>)\<rparr>"
    then show ?thesis using assms(1) by simp
  next
    assume "st' = setName u n st"
    then show ?thesis using ordered_setName[OF assms(1), of u n] by (simp only:)
  next
    assume "st' = st"
    then show ?thesis using assms(1) by (simp only:)
  qed
qed

lemma ordered_POST_user:
  assumes "\<forall>x\<in>set (conversations st). ordered (snd x)"
  shows "\<forall>x\<in>set (conversations (snd (POST_user st b))). ordered (snd x)"
proof (cases b)
  case JNull
  then show ?thesis using assms by (simp add: POST_user_def)
next
  case (JObject f)
  show ?thesis
  proof (cases "typeofString (f ''uid'')")
    case None
    then show ?thesis using assms JObject by (simp add: POST_user_def)
  next
    case (Some u)
    obtain p st' where s: "saveUser st u (sanitizeName (f ''name'')) = (p, st')"
      by (cases "saveUser st u (sanitizeName (f ''name''))")
    show ?thesis using assms JObject Some s ordered_saveUser[OF assms s]
      by (simp add: POST_user_def)
  qed
qed

lemma ordered_PUT_user:
  assumes "\<forall>x\<in>set (conversations st). ordered (snd x)"
  shows "\<forall>x\<in>set (conversations (snd (PUT_user st b))). ordered (snd x)"
proof -
  have "snd (PUT_user st b) = st
      \<or> (\<exists>u n. snd (PUT_user st b) = publish u (UserEvent u n) (setName u n st))"
    by (auto simp: PUT_user_def renameParticipant_def
        split: body.splits option.splits sum.splits prod.splits)
  then show ?thesis
  proof
    assume "snd (PUT_user st b) = st"
    then show ?thesis using assms by simp
  next
    assume "\<exists>u n. snd (PUT_user st b) = publish u (UserEvent u n) (setName u n st)"
    then obtain u n where "snd (PUT_user st b) = publish u (UserEvent u n) (setName u n st)"
      by blast
    then have "conversations (snd (PUT_user st b)) = conversations (setName u n st)"
      by simp
    then show ?thesis using ordered_setName[OF assms, of u n] by (simp only:)
  qed
qed

lemma ordered_POST_connect:
  "\<forall>x\<in>set (conversations st). ordered (snd x) \<Longrightarrow>
     \<forall>x\<in>set (conversations (snd (POST_connect now st b))). ordered (snd x)"
  by (auto simp: POST_connect_def ensureConversation_def Let_def ordered_def
      split: body.splits option.splits sum.splits prod.splits if_splits)

lemma ordered_POST_message:
  assumes "\<forall>x\<in>set (conversations st). ordered (snd x)"
  shows "\<forall>x\<in>set (conversations (snd (POST_message now mid st b))). ordered (snd x)"
proof -
  have "\<forall>x\<in>set (conversations st'). ordered (snd x)"
    if a: "appendMessage now mid st cid p tx = Inr (m, st')" for cid p tx m st'
  proof -
    obtain c where c: "map_of (conversations st) cid = Some c"
      and t: "timestamp m = max now (updatedAt c)"
      and cs: "conversations st' = AList.update cid
                 (c\<lparr>messages := messages c @ [m], updatedAt := max now (updatedAt c)\<rparr>)
                 (conversations st)"
      using appendMessage_Inr[OF a] by blast
    have "ordered c" using assms map_of_SomeD[OF c] by force
    then have "ordered (c\<lparr>messages := messages c @ [m], updatedAt := max now (updatedAt c)\<rparr>)"
      using t by (rule ordered_appended)
    then show ?thesis using assms unfolding cs by (auto dest!: set_update)
  qed
  then show ?thesis using assms
    by (auto simp: POST_message_def Let_def split: body.splits option.splits sum.splits prod.splits)
qed

lemma conversations_GET_events [simp]:
  "conversations (snd (GET_events st u)) = conversations st"
proof (cases "falsy u")
  case True
  then show ?thesis by (simp add: GET_events_def)
next
  case False
  then obtain v where "u = Some v" "v \<noteq> []" by (auto simp: falsy_def split: option.splits)
  then show ?thesis by (simp add: GET_events_opened opened_def)
qed

lemma conversations_cleanup [simp]: "conversations (cleanup k st) = conversations st"
  by (simp add: cleanup_eq)

lemma conversations_abort [simp]: "conversations (abort k st) = conversations st"
  by (simp add: abort_def)

lemma conversations_cancel [simp]: "conversations (cancel k st) = conversations st"
  by (cases "k < length (streams st)") (simp_all add: cancel_eq, simp add: cancel_def)

lemma conversations_keepAliveTick [simp]:
  "conversations (keepAliveTick k st) = conversations st"
  by (simp add: keepAliveTick_def enqueue_deliverTo)

lemma ordered_step:
  assumes "\<forall>x\<in>set (conversations st). ordered (snd x)"
  shows "\<forall>x\<in>set (conversations (step a st)). ordered (snd x)"
proof (cases a)
  case (PostUser b)
  show ?thesis unfolding PostUser step.simps by (rule ordered_POST_user[OF assms])
next
  case (PutUser b)
  show ?thesis unfolding PutUser step.simps by (rule ordered_PUT_user[OF assms])
next
  case (PostConnect now b)
  show ?thesis unfolding PostConnect step.simps by (rule ordered_POST_connect[OF assms])
next
  case (PostMessage now mid b)
  show ?thesis unfolding PostMessage step.simps by (rule ordered_POST_message[OF assms])
next
  case (GetEvents u)
  show ?thesis unfolding GetEvents step.simps conversations_GET_events by (rule assms)
next
  case (Abort k)
  show ?thesis unfolding Abort step.simps conversations_abort by (rule assms)
next
  case (Cancel k)
  show ?thesis unfolding Cancel step.simps conversations_cancel by (rule assms)
next
  case (KeepAliveTick k)
  show ?thesis unfolding KeepAliveTick step.simps conversations_keepAliveTick by (rule assms)
qed

lemma ordered_run:
  "\<forall>x\<in>set (conversations st). ordered (snd x) \<Longrightarrow>
     \<forall>x\<in>set (conversations (run acts st)). ordered (snd x)"
  unfolding run_def
proof (induction acts arbitrary: st)
  case Nil
  then show ?case by simp
next
  case (Cons a acts)
  have "\<forall>x\<in>set (conversations (fold step acts (step a st))). ordered (snd x)"
    by (rule Cons.IH) (rule ordered_step[OF Cons.prems])
  then show ?case by simp
qed

text \<open>
  C3. In every state the server reaches, the timestamps of a conversation's messages never
  decrease along the log, and a successful \<open>sendMessage\<close> on the conversation appends
  exactly the message it returns: the log grows by one entry, at its end, whose timestamp
  is at least that of every earlier message.
\<close>

theorem sendMessage_append_order:
  assumes "map_of (conversations (run acts init)) cid = Some c"
  shows "sorted (map timestamp (messages c))
       \<and> (\<forall>now mid f m st'.
             f ''conversationId'' = JString cid
             \<and> POST_message now mid (run acts init) (JObject f) = (Inr (Json (MessageJson m)), st')
             \<longrightarrow> (\<exists>c'. map_of (conversations st') cid = Some c'
                     \<and> messages c' = messages c @ [m]
                     \<and> length (messages c') = length (messages c) + 1
                     \<and> sorted (map timestamp (messages c'))
                     \<and> (\<forall>m'\<in>set (messages c). timestamp m' \<le> timestamp m)))"
proof -
  let ?st = "run acts init"
  have all: "\<forall>x\<in>set (conversations ?st). ordered (snd x)"
    by (rule ordered_run) (simp add: init_def)
  have oc: "ordered c" using all map_of_SomeD[OF assms] by force
  have grow: "\<exists>c'. map_of (conversations st') cid = Some c'
                     \<and> messages c' = messages c @ [m]
                     \<and> length (messages c') = length (messages c) + 1
                     \<and> sorted (map timestamp (messages c'))
                     \<and> (\<forall>m'\<in>set (messages c). timestamp m' \<le> timestamp m)"
    if f: "f ''conversationId'' = JString cid"
      and p: "POST_message now mid ?st (JObject f) = (Inr (Json (MessageJson m)), st')"
    for now mid f m st'
  proof -
    obtain p' tx where a: "appendMessage now mid ?st cid p' tx = Inr (m, st')"
      using POST_message_Inr[OF p f] by blast
    obtain c0 where c0: "map_of (conversations ?st) cid = Some c0"
      and t: "timestamp m = max now (updatedAt c0)"
      and cs: "conversations st' = AList.update cid
                 (c0\<lparr>messages := messages c0 @ [m], updatedAt := max now (updatedAt c0)\<rparr>)
                 (conversations ?st)"
      using appendMessage_Inr[OF a] by blast
    have e: "c0 = c" using c0 assms by simp
    let ?c' = "c\<lparr>messages := messages c @ [m], updatedAt := max now (updatedAt c)\<rparr>"
    have l: "map_of (conversations st') cid = Some ?c'" by (simp add: cs e update_conv')
    have o': "ordered ?c'" using oc t e by (intro ordered_appended) simp_all
    have le: "\<forall>m'\<in>set (messages c). timestamp m' \<le> timestamp m"
      using oc t e by (auto simp: ordered_def)
    show ?thesis using l o' le by (simp add: ordered_def)
  qed
  show ?thesis using oc grow by (simp add: ordered_def) blast
qed

theorem sendMessage_append_order_witness:
  "sorted (map timestamp (messages channel))
   \<and> (\<exists>c'. map_of (conversations talking) (id_conv channel) = Some c'
          \<and> messages c' = messages channel @ [hi]
          \<and> length (messages c') = length (messages channel) + 1
          \<and> sorted (map timestamp (messages c')))"
proof -
  let ?acts = "[PostUser (jsonObject [(''uid'', lit ''alpha''), (''name'', lit ''Alpha'')]),
        PostUser (jsonObject [(''uid'', lit ''beta''), (''name'', lit ''Beta'')]),
        PostConnect 1 (jsonObject [(''fromUid'', lit ''alpha''), (''toUid'', lit ''beta'')]),
        GetEvents (Some (lit ''beta''))]"
  let ?f = "\<lambda>k. case map_of [(''conversationId'', id_conv channel),
         (''fromUid'', lit ''alpha''), (''text'', lit ''hi'')] k of
           None \<Rightarrow> JOther | Some s \<Rightarrow> JString s"
  have look: "map_of (conversations (run ?acts init)) (id_conv channel) = Some channel"
    unfolding run_opened by (simp add: opened_def conversations_connected)
  note T = sendMessage_append_order[OF look]
  have 1: "sorted (map timestamp (messages channel))" using T by blast
  have f: "?f ''conversationId'' = JString (id_conv channel)" by simp
  have p: "POST_message 5 (lit ''m1'') (run ?acts init) (JObject ?f)
             = (Inr (Json (MessageJson hi)), talking)"
    unfolding run_opened by (rule post_hi[unfolded jsonObject_def])
  have "\<exists>c'. map_of (conversations talking) (id_conv channel) = Some c'
          \<and> messages c' = messages channel @ [hi]
          \<and> length (messages c') = length (messages channel) + 1
          \<and> sorted (map timestamp (messages c'))
          \<and> (\<forall>m'\<in>set (messages channel). timestamp m' \<le> timestamp hi)"
    by (rule T[THEN conjunct2, rule_format, of ?f 5 "lit ''m1''" hi talking])
       (rule conjI[OF f p])
  then have 2: "\<exists>c'. map_of (conversations talking) (id_conv channel) = Some c'
          \<and> messages c' = messages channel @ [hi]
          \<and> length (messages c') = length (messages channel) + 1
          \<and> sorted (map timestamp (messages c'))"
    by blast
  show ?thesis using 1 2 by (rule conjI)
qed

subsection \<open>A registration lasts until the feed ends\<close>

lemma subscribers_POST_user: "subscribers (snd (POST_user st b)) = subscribers st"
  by (auto simp: POST_user_def saveUser_def split: body.splits option.splits prod.splits if_splits)

lemma subscribers_PUT_user: "subscribers (snd (PUT_user st b)) = subscribers st"
  by (auto simp: PUT_user_def renameParticipant_def
      split: body.splits option.splits sum.splits prod.splits)

lemma subscribers_POST_connect: "subscribers (snd (POST_connect now st b)) = subscribers st"
  by (auto simp: POST_connect_def ensureConversation_def Let_def
      split: body.splits option.splits sum.splits prod.splits if_splits)

lemma subscribers_POST_message: "subscribers (snd (POST_message now mid st b)) = subscribers st"
  by (auto simp: POST_message_def appendMessage_def Let_def
      split: body.splits option.splits sum.splits prod.splits if_splits)

lemma subscribers_keepAliveTick: "subscribers (keepAliveTick k st) = subscribers st"
  by (simp add: keepAliveTick_def enqueue_deliverTo)

lemma registered_GET_events:
  "k \<in> set (subscribers st u) \<Longrightarrow> k \<in> set (subscribers (snd (GET_events st v)) u)"
proof (cases "falsy v")
  case True
  then show "k \<in> set (subscribers st u) \<Longrightarrow> ?thesis" by (simp add: GET_events_def)
next
  case False
  then obtain w where "v = Some w" "w \<noteq> []" by (auto simp: falsy_def split: option.splits)
  then show "k \<in> set (subscribers st u) \<Longrightarrow> ?thesis"
    by (auto simp: GET_events_opened opened_def)
qed

lemma registered_cleanup:
  "k \<in> set (subscribers st u) \<Longrightarrow> j \<noteq> k \<Longrightarrow> k \<in> set (subscribers (cleanup j st) u)"
  by (auto simp: cleanup_eq)

lemma registered_abort:
  "k \<in> set (subscribers st u) \<Longrightarrow> j \<noteq> k \<Longrightarrow> k \<in> set (subscribers (abort j st) u)"
  by (simp add: abort_def registered_cleanup)

lemma registered_cancel:
  "k \<in> set (subscribers st u) \<Longrightarrow> j \<noteq> k \<Longrightarrow> k \<in> set (subscribers (cancel j st) u)"
  by (cases "j < length (streams st)")
     (simp_all add: cancel_eq registered_cleanup, simp add: cancel_def)

lemma registered_step:
  assumes "k \<in> set (subscribers st u)" and "a \<noteq> Abort k" and "a \<noteq> Cancel k"
  shows "k \<in> set (subscribers (step a st) u)"
  using assms
  by (cases a)
     (simp_all add: subscribers_POST_user subscribers_PUT_user subscribers_POST_connect
        subscribers_POST_message subscribers_keepAliveTick registered_GET_events
        registered_abort registered_cancel)

lemma registered_run:
  assumes "k \<in> set (subscribers st u)" and "Abort k \<notin> set acts" and "Cancel k \<notin> set acts"
  shows "k \<in> set (subscribers (run acts st) u)"
  using assms unfolding run_def
proof (induction acts arbitrary: st)
  case Nil
  then show ?case by simp
next
  case (Cons a acts)
  have "k \<in> set (subscribers (step a st) u)"
    using Cons.prems by (intro registered_step) auto
  then have "k \<in> set (subscribers (fold step acts (step a st)) u)"
    using Cons.prems by (intro Cons.IH) auto
  then show ?case by simp
qed

subsection \<open>Conversations keep their participants\<close>

lemma kept_setName:
  "map_of (conversations (setName u n st)) cid
     = map_option (renameIn u n) (map_of (conversations st) cid)"
  by (simp add: setName_def map_of_map)

lemma kept_saveUser:
  assumes "map_of (conversations st) cid = Some c" and "saveUser st u n = (p, st')"
  shows "\<exists>c'. map_of (conversations st') cid = Some c'
            \<and> map fst (participants c') = map fst (participants c)"
proof -
  have "st' = st\<lparr>users := (users st)(u \<mapsto> \<lparr>uid = u, name = n\<rparr>)\<rparr> \<or> st' = setName u n st \<or> st' = st"
    using assms(2) by (auto simp: saveUser_def split: option.splits if_splits)
  then show ?thesis using assms(1) by (auto simp: kept_setName)
qed

lemma kept_POST_user:
  assumes "map_of (conversations st) cid = Some c"
  shows "\<exists>c'. map_of (conversations (snd (POST_user st b))) cid = Some c'
            \<and> map fst (participants c') = map fst (participants c)"
proof (cases b)
  case JNull
  then show ?thesis using assms by (simp add: POST_user_def)
next
  case (JObject f)
  show ?thesis
  proof (cases "typeofString (f ''uid'')")
    case None
    then show ?thesis using assms JObject by (simp add: POST_user_def)
  next
    case (Some u)
    obtain p st' where s: "saveUser st u (sanitizeName (f ''name'')) = (p, st')"
      by (cases "saveUser st u (sanitizeName (f ''name''))")
    show ?thesis using assms JObject Some s kept_saveUser[OF assms s]
      by (simp add: POST_user_def)
  qed
qed

lemma kept_PUT_user:
  assumes "map_of (conversations st) cid = Some c"
  shows "\<exists>c'. map_of (conversations (snd (PUT_user st b))) cid = Some c'
            \<and> map fst (participants c') = map fst (participants c)"
proof -
  have "snd (PUT_user st b) = st
      \<or> (\<exists>u n. snd (PUT_user st b) = publish u (UserEvent u n) (setName u n st))"
    by (auto simp: PUT_user_def renameParticipant_def
        split: body.splits option.splits sum.splits prod.splits)
  then show ?thesis
  proof
    assume "snd (PUT_user st b) = st"
    then show ?thesis using assms by simp
  next
    assume "\<exists>u n. snd (PUT_user st b) = publish u (UserEvent u n) (setName u n st)"
    then obtain u n where "snd (PUT_user st b) = publish u (UserEvent u n) (setName u n st)"
      by blast
    then have "conversations (snd (PUT_user st b)) = conversations (setName u n st)"
      by simp
    then show ?thesis using assms by (simp add: kept_setName)
  qed
qed

lemma kept_ensureConversation:
  assumes "map_of (conversations st) cid = Some c"
    and "ensureConversation now st a b = Inr (cv, st')"
  shows "map_of (conversations st') cid = Some c"
  using assms
  by (auto simp: ensureConversation_def Let_def map_add_def split: if_splits option.splits)

lemma kept_POST_connect:
  assumes "map_of (conversations st) cid = Some c"
  shows "\<exists>c'. map_of (conversations (snd (POST_connect now st b))) cid = Some c'
            \<and> map fst (participants c') = map fst (participants c)"
  using assms kept_ensureConversation[OF assms]
  by (auto simp: POST_connect_def Let_def split: body.splits sum.splits prod.splits)

lemma kept_appendMessage:
  assumes "map_of (conversations st) cid = Some c"
    and "appendMessage now mid st cid2 p tx = Inr (m, st')"
  shows "\<exists>c'. map_of (conversations st') cid = Some c'
            \<and> map fst (participants c') = map fst (participants c)"
proof -
  obtain c2 where c2: "map_of (conversations st) cid2 = Some c2"
    and cs: "conversations st' = AList.update cid2
                 (c2\<lparr>messages := messages c2 @ [m], updatedAt := max now (updatedAt c2)\<rparr>)
                 (conversations st)"
    using appendMessage_Inr[OF assms(2)] by blast
  show ?thesis using assms(1) c2 by (cases "cid = cid2") (simp_all add: cs update_conv')
qed

lemma kept_POST_message:
  assumes "map_of (conversations st) cid = Some c"
  shows "\<exists>c'. map_of (conversations (snd (POST_message now mid st b))) cid = Some c'
            \<and> map fst (participants c') = map fst (participants c)"
  using assms kept_appendMessage[OF assms]
  by (auto simp: POST_message_def Let_def split: body.splits option.splits sum.splits prod.splits)

lemma kept_step:
  assumes "map_of (conversations st) cid = Some c"
  shows "\<exists>c'. map_of (conversations (step a st)) cid = Some c'
            \<and> map fst (participants c') = map fst (participants c)"
proof (cases a)
  case (PostUser b)
  show ?thesis unfolding PostUser step.simps by (rule kept_POST_user[OF assms])
next
  case (PutUser b)
  show ?thesis unfolding PutUser step.simps by (rule kept_PUT_user[OF assms])
next
  case (PostConnect now b)
  show ?thesis unfolding PostConnect step.simps by (rule kept_POST_connect[OF assms])
next
  case (PostMessage now mid b)
  show ?thesis unfolding PostMessage step.simps by (rule kept_POST_message[OF assms])
next
  case (GetEvents u)
  show ?thesis using assms by (simp add: GetEvents)
next
  case (Abort k)
  show ?thesis using assms by (simp add: Abort)
next
  case (Cancel k)
  show ?thesis using assms by (simp add: Cancel)
next
  case (KeepAliveTick k)
  show ?thesis using assms by (simp add: KeepAliveTick)
qed

lemma kept_run:
  assumes "map_of (conversations st) cid = Some c"
  shows "\<exists>c'. map_of (conversations (run acts st)) cid = Some c'
            \<and> map fst (participants c') = map fst (participants c)"
  using assms unfolding run_def
proof (induction acts arbitrary: st c)
  case Nil
  then show ?case by simp
next
  case (Cons a acts)
  obtain c1 where 1: "map_of (conversations (step a st)) cid = Some c1"
    and p1: "map fst (participants c1) = map fst (participants c)"
    using kept_step[OF Cons.prems] by blast
  obtain c2 where 2: "map_of (conversations (fold step acts (step a st))) cid = Some c2"
    and p2: "map fst (participants c2) = map fst (participants c1)"
    using Cons.IH[OF 1] by blast
  show ?case using 2 p1 p2 by simp
qed

subsection \<open>Exactly-once delivery\<close>

lemma split_position:
  assumes "q0 @ rest = q1 @ e # q2"
  shows "(length q1 < length q0 \<longrightarrow> (\<exists>us. q0 = q1 @ e # us))
       \<and> (length q0 \<le> length q1 \<longrightarrow> (\<exists>us. q1 = q0 @ us))"
proof -
  from assms obtain us where "q0 = q1 @ us \<and> us @ rest = e # q2 \<or> q0 @ us = q1 \<and> rest = us @ e # q2"
    by (auto simp: append_eq_append_conv2)
  then show ?thesis
  proof
    assume a: "q0 = q1 @ us \<and> us @ rest = e # q2"
    show ?thesis
    proof (cases us)
      case Nil
      then show ?thesis using a by auto
    next
      case (Cons x xs)
      then have "x = e" using a by simp
      then show ?thesis using a Cons by auto
    qed
  next
    assume "q0 @ us = q1 \<and> rest = us @ e # q2"
    then show ?thesis by auto
  qed
qed

lemma deliveredOnce_snapshots: "deliveredOnce cid c q \<Longrightarrow> snapshotsIn cid q \<noteq> []"
  by (auto simp: deliveredOnce_def)

text \<open>
  C7. Opening a live feed registers its subscriber and reads the snapshot in one turn of
  the events route, the subscription first, and the registration lasts until the feed is
  aborted or cancelled. Whatever turns of concurrent requests come before and after the
  opening, in any order, the feed has been sent each conversation of its identity exactly
  once: its queue holds exactly one "conversation" event for it, inside the snapshot when
  the conversation existed at the opening and after the snapshot when it was created
  later; no "message" event of it comes before that event, and after it comes one
  "message" event for each message appended since, in order.
\<close>

theorem live_feed_registered_exactly_once:
  assumes "st = run pre init" and "k = length (streams st)" and "u \<noteq> []"
    and "Abort k \<notin> set post" and "Cancel k \<notin> set post"
  shows "\<exists>st'. GET_events st (Some u) = (Inr (EventStream k), st')
      \<and> k \<in> set (subscribers st' u)
      \<and> k \<in> set (subscribers (run post st') u)
      \<and> (\<forall>cid c. (cid, c) \<in> set (conversations (run post st'))
                  \<and> u \<in> fst ` set (participants c) \<longrightarrow>
           (\<exists>q1 c0 q2.
               queue (streams (run post st') ! k) = q1 @ Data (ConversationEvent c0) # q2
             \<and> id_conv c0 = cid
             \<and> snapshotsIn cid q1 = [] \<and> messagesIn cid q1 = []
             \<and> snapshotsIn cid q2 = []
             \<and> messages c = messages c0 @ messagesIn cid q2
             \<and> (length q1 < length (queue (streams st' ! k))
                  \<longleftrightarrow> cid \<in> fst ` set (conversations st))))"
proof -
  let ?st2 = "opened st u"
  let ?st3 = "run post ?st2"
  let ?q0 = "queue (streams ?st2 ! k)"
  let ?q3 = "queue (streams ?st3 ! k)"
  have g: "GET_events st (Some u) = (Inr (EventStream k), ?st2)"
    unfolding assms(2) by (rule GET_events_opened[OF assms(3)])
  have c1: "consistent st" and s1: "synchronised st"
    unfolding assms(1) using inv_run[OF inv_init] by blast+
  have c2: "consistent ?st2" by (rule consistent_opened[OF c1])
  have s2: "synchronised ?st2" by (rule synchronised_opened[OF s1 c1])
  have c3: "consistent ?st3" and s3: "synchronised ?st3"
    using inv_run[OF c2 s2] by blast+
  have r2: "k \<in> set (subscribers ?st2 u)"
    by (simp add: opened_def assms(2))
  have r3: "k \<in> set (subscribers ?st3 u)"
    by (rule registered_run[OF r2 assms(4,5)])
  have kl: "k < length (streams ?st2)" by (simp add: opened_def assms(2))
  have "prefix ?q0 ?q3"
    using extends_run[of ?st2 post] kl unfolding extends_def by blast
  then obtain rest where q3: "?q3 = ?q0 @ rest" by (auto simp: prefix_def)
  have cv2: "conversations ?st2 = conversations st" by (simp add: opened_def)
  have each: "\<exists>q1 c0 q2.
               ?q3 = q1 @ Data (ConversationEvent c0) # q2
             \<and> id_conv c0 = cid
             \<and> snapshotsIn cid q1 = [] \<and> messagesIn cid q1 = []
             \<and> snapshotsIn cid q2 = []
             \<and> messages c = messages c0 @ messagesIn cid q2
             \<and> (length q1 < length ?q0 \<longleftrightarrow> cid \<in> fst ` set (conversations st))"
    if mem: "(cid, c) \<in> set (conversations ?st3)" and part: "u \<in> fst ` set (participants c)"
    for cid c
  proof -
    have "deliveredOnce cid c ?q3"
      using s3 r3 mem part unfolding synchronised_def by force
    then obtain q1 c0 q2 where q: "?q3 = q1 @ Data (ConversationEvent c0) # q2"
      and id: "id_conv c0 = cid"
      and n1: "snapshotsIn cid q1 = []" and m1: "messagesIn cid q1 = []"
      and n2: "snapshotsIn cid q2 = []"
      and ms: "messages c = messages c0 @ messagesIn cid q2"
      unfolding deliveredOnce_def by blast
    have eq: "?q0 @ rest = q1 @ Data (ConversationEvent c0) # q2"
      using q q3 by simp
    note pos = split_position[OF eq]
    have where_: "length q1 < length ?q0 \<longleftrightarrow> cid \<in> fst ` set (conversations st)"
    proof (cases "cid \<in> fst ` set (conversations st)")
      case True
      then obtain c1' where l1: "map_of (conversations ?st2) cid = Some c1'"
        unfolding cv2 by (metis map_of_eq_None_iff not_Some_eq)
      obtain c' where l3: "map_of (conversations ?st3) cid = Some c'"
        and p3: "map fst (participants c') = map fst (participants c1')"
        using kept_run[OF l1] by blast
      have "distinct (map fst (conversations ?st3))" using c3 unfolding consistent_def by blast
      then have "map_of (conversations ?st3) cid = Some c" using mem by simp
      then have "c' = c" using l3 by simp
      then have "set (map fst (participants c1')) = set (map fst (participants c))"
        using p3 by simp
      then have u1: "u \<in> fst ` set (participants c1')" using part by simp
      have m2: "(cid, c1') \<in> set (conversations ?st2)" using l1 by (rule map_of_SomeD)
      have "deliveredOnce cid c1' ?q0"
        using s2 r2 m2 u1 unfolding synchronised_def by force
      then have ne: "snapshotsIn cid ?q0 \<noteq> []" by (rule deliveredOnce_snapshots)
      have "length q1 < length ?q0"
      proof (rule ccontr)
        assume "\<not> length q1 < length ?q0"
        then obtain us where "q1 = ?q0 @ us" using pos by auto
        then have "snapshotsIn cid q1 = snapshotsIn cid ?q0 @ snapshotsIn cid us" by simp
        then show False using n1 ne by simp
      qed
      then show ?thesis using True by simp
    next
      case False
      then have "cid \<notin> fst ` set (conversations ?st2)" by (simp add: cv2)
      then have e0: "snapshotsIn cid ?q0 = []"
        using c2 kl unfolding consistent_def by blast
      have "\<not> length q1 < length ?q0"
      proof
        assume "length q1 < length ?q0"
        then obtain us where "?q0 = q1 @ Data (ConversationEvent c0) # us" using pos by auto
        then have "snapshotsIn cid ?q0
            = snapshotsIn cid q1 @ snapshotOf cid (Data (ConversationEvent c0)) @ snapshotsIn cid us"
          by simp
        then show False using e0 id by simp
      qed
      then show ?thesis using False by simp
    qed
    show ?thesis using q id n1 m1 n2 ms where_ by blast
  qed
  show ?thesis
    using g r2 r3 each by blast
qed

theorem live_feed_registered_exactly_once_witness:
  "\<exists>st'. GET_events
          (run [PostUser (jsonObject [(''uid'', lit ''alpha''), (''name'', lit ''Alpha'')]),
                PostUser (jsonObject [(''uid'', lit ''beta''), (''name'', lit ''Beta'')]),
                PostConnect 1 (jsonObject [(''fromUid'', lit ''alpha''),
                                           (''toUid'', lit ''beta'')])] init)
          (Some (lit ''beta'')) = (Inr (EventStream 0), st')
      \<and> 0 \<in> set (subscribers st' (lit ''beta''))
      \<and> 0 \<in> set (subscribers
            (run [PostMessage 5 (lit ''m1'')
                    (jsonObject [(''conversationId'', id_conv channel),
                                 (''fromUid'', lit ''alpha''), (''text'', lit ''hi'')])] st')
            (lit ''beta''))
      \<and> (\<exists>q1 c0 q2.
             queue (streams
               (run [PostMessage 5 (lit ''m1'')
                       (jsonObject [(''conversationId'', id_conv channel),
                                    (''fromUid'', lit ''alpha''), (''text'', lit ''hi'')])] st') ! 0)
               = q1 @ Data (ConversationEvent c0) # q2
           \<and> id_conv c0 = id_conv channel
           \<and> snapshotsIn (id_conv channel) q1 = [] \<and> messagesIn (id_conv channel) q1 = []
           \<and> snapshotsIn (id_conv channel) q2 = []
           \<and> [hi] = messages c0 @ messagesIn (id_conv channel) q2
           \<and> length q1 < length (queue (streams st' ! 0)))"
proof -
  let ?pre = "[PostUser (jsonObject [(''uid'', lit ''alpha''), (''name'', lit ''Alpha'')]),
                PostUser (jsonObject [(''uid'', lit ''beta''), (''name'', lit ''Beta'')]),
                PostConnect 1 (jsonObject [(''fromUid'', lit ''alpha''),
                                           (''toUid'', lit ''beta'')])]"
  let ?post = "[PostMessage 5 (lit ''m1'')
                    (jsonObject [(''conversationId'', id_conv channel),
                                 (''fromUid'', lit ''alpha''), (''text'', lit ''hi'')])]"
  let ?c = "channel\<lparr>messages := [hi], updatedAt := 5\<rparr>"
  have st: "connected = run ?pre init" by (simp only: run_connected)
  have k: "0 = length (streams connected)"
    by (simp add: connected_def registered_def init_def)
  have ne: "lit ''beta'' \<noteq> []" by (rule names_distinct)
  have a: "Abort 0 \<notin> set ?post" and c: "Cancel 0 \<notin> set ?post" by simp_all
  obtain st' where g: "GET_events connected (Some (lit ''beta'')) = (Inr (EventStream 0), st')"
    and r2: "0 \<in> set (subscribers st' (lit ''beta''))"
    and r3: "0 \<in> set (subscribers (run ?post st') (lit ''beta''))"
    and all: "\<forall>cid c. (cid, c) \<in> set (conversations (run ?post st'))
                  \<and> lit ''beta'' \<in> fst ` set (participants c) \<longrightarrow>
           (\<exists>q1 c0 q2.
               queue (streams (run ?post st') ! 0) = q1 @ Data (ConversationEvent c0) # q2
             \<and> id_conv c0 = cid
             \<and> snapshotsIn cid q1 = [] \<and> messagesIn cid q1 = []
             \<and> snapshotsIn cid q2 = []
             \<and> messages c = messages c0 @ messagesIn cid q2
             \<and> (length q1 < length (queue (streams st' ! 0))
                  \<longleftrightarrow> cid \<in> fst ` set (conversations connected)))"
    using live_feed_registered_exactly_once[OF st k ne a c] by blast
  have st': "st' = opened connected (lit ''beta'')"
    using g by (simp add: GET_events_opened[OF ne])
  have fin: "run ?post st' = talking"
    by (simp add: run_def st' post_hi)
  have mem: "(id_conv channel, ?c) \<in> set (conversations (run ?post st'))"
    by (simp add: fin talking_def)
  have part: "lit ''beta'' \<in> fst ` set (participants ?c)"
    by (simp add: channel_def)
  have old: "id_conv channel \<in> fst ` set (conversations connected)"
    by (simp add: connected_def)
  obtain q1 c0 q2 where
    q: "queue (streams (run ?post st') ! 0) = q1 @ Data (ConversationEvent c0) # q2"
    and f: "id_conv c0 = id_conv channel"
      "snapshotsIn (id_conv channel) q1 = []" "messagesIn (id_conv channel) q1 = []"
      "snapshotsIn (id_conv channel) q2 = []"
    and ms: "messages ?c = messages c0 @ messagesIn (id_conv channel) q2"
    and w: "length q1 < length (queue (streams st' ! 0))
                  \<longleftrightarrow> id_conv channel \<in> fst ` set (conversations connected)"
    using all[rule_format, OF conjI[OF mem part]] by blast
  have ms': "[hi] = messages c0 @ messagesIn (id_conv channel) q2" using ms by simp
  have w': "length q1 < length (queue (streams st' ! 0))" using w old by simp
  have inner: "\<exists>q1 c0 q2.
             queue (streams (run ?post st') ! 0) = q1 @ Data (ConversationEvent c0) # q2
           \<and> id_conv c0 = id_conv channel
           \<and> snapshotsIn (id_conv channel) q1 = [] \<and> messagesIn (id_conv channel) q1 = []
           \<and> snapshotsIn (id_conv channel) q2 = []
           \<and> [hi] = messages c0 @ messagesIn (id_conv channel) q2
           \<and> length q1 < length (queue (streams st' ! 0))"
    using q f ms' w' by blast
  show ?thesis
    unfolding st[symmetric] using g r2 r3 inner by blast
qed

end
